theory Spec2Isabelle
  imports Main
begin

section \<open>Values, errors and strategies\<close>

text \<open>
  The store is generic in its data type \<open>TData\<close>; the proxy only ever tests a value for
  JavaScript truthiness (\<open>value && newValue\<close>, \<open>!value\<close>). Values are therefore modelled
  by a small universe of JavaScript values that keeps the falsy ones apart. Numbers are
  integers here (\<open>NaN\<close>, which is falsy too, is not represented).
\<close>

datatype jsval =
    JUndefined
  | JNull
  | JBool bool
  | JNum int
  | JStr string
  | JObj "(string \<times> jsval) list"

fun truthy :: "jsval \<Rightarrow> bool" where
  "truthy JUndefined = False"
| "truthy JNull = False"
| "truthy (JBool b) = b"
| "truthy (JNum n) = (n \<noteq> 0)"
| "truthy (JStr s) = (s \<noteq> [])"
| "truthy (JObj _) = True"

text \<open>A value is absent when it is \<open>undefined\<close> or \<open>null\<close>.\<close>

fun absent :: "jsval \<Rightarrow> bool" where
  "absent JUndefined = True"
| "absent JNull = True"
| "absent _ = False"

text \<open>
  Thrown errors. \<open>ReadonlyStoreError\<close> and \<open>ValidationError\<close> are the two classes of the
  store; \<open>AggregateError\<close> carries the list it was built from and its message; \<open>Error\<close> is any
  other rejection (a storage failure, a failing setter), with its message.
\<close>

datatype error =
    ReadonlyStoreError string
  | ValidationError string
  | AggregateError "string list" string
  | Error string

fun error_message :: "error \<Rightarrow> string" where
  "error_message (ReadonlyStoreError m) = m"
| "error_message (ValidationError m) = m"
| "error_message (AggregateError es m) = m"
| "error_message (Error m) = m"

text \<open>
  \<open>ProxyOptions\<close>: the strategy pair. The field \<open>validate\<close> of the source is called
  \<open>validator\<close> here, since \<open>StoreFlags\<close> has a field \<open>validate\<close> as well.
\<close>

record ProxyOptions =
  codify :: "jsval \<Rightarrow> string \<Rightarrow> string"
  validator :: "jsval \<Rightarrow> jsval \<Rightarrow> string \<Rightarrow> error + unit"

record StoreFlags =
  readonly :: bool
  validate :: bool

section \<open>Storage adapters\<close>

text \<open>
  \<open>StoreStorageAdapter\<close> is an interface of four asynchronous operations. Each one is a
  function of the adapter's state \<open>'s\<close> that returns the new state and either the resolved
  value or the rejection. The fields carry the prefix \<open>adapter_\<close>.
\<close>

record 's StoreStorageAdapter =
  adapter_exists :: "string \<Rightarrow> 's \<Rightarrow> (error + bool) \<times> 's"
  adapter_read :: "string \<Rightarrow> ProxyOptions \<Rightarrow> 's \<Rightarrow> (error + jsval) \<times> 's"
  adapter_write :: "string \<Rightarrow> jsval \<Rightarrow> ProxyOptions \<Rightarrow> 's \<Rightarrow> (error + unit) \<times> 's"
  adapter_delete :: "string \<Rightarrow> 's \<Rightarrow> (error + unit) \<times> 's"

text \<open>\<open>InMemoryStoreStorageAdapter\<close>: a \<open>Map\<close> from keys to values.\<close>

definition InMemoryStoreStorageAdapter :: "(string \<rightharpoonup> jsval) StoreStorageAdapter" where
  "InMemoryStoreStorageAdapter =
     \<lparr> adapter_exists = (\<lambda>key data. (Inr (key \<in> dom data), data)),
       adapter_read = (\<lambda>key options data.
                 (Inr (case data key of None \<Rightarrow> JUndefined | Some v \<Rightarrow> v), data)),
       adapter_write = (\<lambda>key v options data. (Inr (), data(key \<mapsto> v))),
       adapter_delete = (\<lambda>key data. (Inr (), data(key := None))) \<rparr>"

text \<open>
  \<open>FsStoreStorageAdapter\<close>: the file system is a map from file paths to file contents.
  The dynamic \<open>import\<close> of the runtime (given the files and a path, the module object or
  a rejection) and \<open>flatString\<close> of the utilities package are parameters.

  Modelled from the spec: \<open>pathExists\<close> and \<open>writeFile\<close> of the utilities package
  (\<open>@graphql-mesh/utils\<close>) are not among the sources. Following the description of the
  adapter (\<open>exists\<close> is a path-existence check; \<open>write\<close> persists the text to that path,
  replacing what was there), they are the membership test and the update of the map.
  \<open>unlink\<close> of the runtime fails when the path does not exist.
\<close>

datatype moduleExtension = Mjs | Js

fun extensionString :: "moduleExtension \<Rightarrow> string" where
  "extensionString Mjs = ''mjs''"
| "extensionString Js = ''js''"

definition getWrittenFileName :: "moduleExtension \<Rightarrow> string \<Rightarrow> string" where
  "getWrittenFileName ext key = key @ ''.'' @ extensionString ext"

text \<open>Property access \<open>m.default\<close> on a module object.\<close>

fun getDefault :: "jsval \<Rightarrow> jsval" where
  "getDefault (JObj props) =
     (case map_of props ''default'' of None \<Rightarrow> JUndefined | Some v \<Rightarrow> v)"
| "getDefault _ = JUndefined"

definition FsStoreStorageAdapter ::
    "((string \<rightharpoonup> string) \<Rightarrow> string \<Rightarrow> error + jsval) \<Rightarrow> (string \<Rightarrow> string) \<Rightarrow> moduleExtension
       \<Rightarrow> (string \<rightharpoonup> string) StoreStorageAdapter" where
  "FsStoreStorageAdapter import flatString ext =
     \<lparr> adapter_exists = (\<lambda>key files.
          (let filePath = getWrittenFileName ext key in (Inr (filePath \<in> dom files), files))),
       adapter_read = (\<lambda>key options files.
          (let filePath = getWrittenFileName ext key in
           case import files filePath of
             Inl e \<Rightarrow> (Inl e, files)
           | Inr m \<Rightarrow> (Inr (if truthy (getDefault m) then getDefault m else m), files))),
       adapter_write = (\<lambda>key v options files.
          (let asString = codify options v key;
               filePath = getWrittenFileName ext key
           in (Inr (), files(filePath \<mapsto> flatString asString)))),
       adapter_delete = (\<lambda>key files.
          (let filePath = getWrittenFileName ext key in
           if filePath \<in> dom files then (Inr (), files(filePath := None))
           else (Inl (Error ''ENOENT''), files))) \<rparr>"

section \<open>The schema strategy\<close>

text \<open>
  \<open>PredefinedProxyOptions.GraphQLSchemaWithDiffing.validate\<close>. \<open>diff\<close> of the schema
  inspector and the message that \<open>AggregateError\<close> builds from its list are parameters. Of
  a \<open>Change\<close> only the two fields that are read are kept.
\<close>

datatype CriticalityLevel = Breaking | NonBreaking | Dangerous

record Change =
  criticality_level :: CriticalityLevel
  change_message :: string

text \<open>The \<open>for\<close> loop over the changes, with the array \<open>errors\<close> as accumulator.\<close>

fun collectErrors :: "Change list \<Rightarrow> string list \<Rightarrow> string list" where
  "collectErrors [] errors = errors"
| "collectErrors (change # changes) errors =
     collectErrors changes
       (if criticality_level change = Breaking \<or> criticality_level change = Dangerous
        then errors @ [change_message change] else errors)"

definition GraphQLSchemaWithDiffing_validate ::
    "(jsval \<Rightarrow> jsval \<Rightarrow> Change list) \<Rightarrow> (string list \<Rightarrow> string)
       \<Rightarrow> jsval \<Rightarrow> jsval \<Rightarrow> string \<Rightarrow> error + unit" where
  "GraphQLSchemaWithDiffing_validate diff aggregateMessage oldSchema newSchema ident =
     (let changes = diff oldSchema newSchema;
          errors = collectErrors changes []
      in if length errors \<noteq> 0 then Inl (AggregateError errors (aggregateMessage errors))
         else Inr ())"

section \<open>Joining paths\<close>

text \<open>
  Identifiers are joined with \<open>join\<close> of the Node.js module \<open>path\<close>, which is not code of
  the repository. It is modelled here in its POSIX form: the non-empty arguments are
  concatenated with \<open>/\<close> and the result is normalised, which drops empty and \<open>.\<close>
  segments, resolves \<open>..\<close> against the segment before it, and keeps a leading and a
  trailing separator.
\<close>

fun splitSlash :: "string \<Rightarrow> string list" where
  "splitSlash [] = [[]]"
| "splitSlash (c # cs) =
     (if c = CHR ''/'' then [] # splitSlash cs
      else (case splitSlash cs of [] \<Rightarrow> [[c]] | w # ws \<Rightarrow> (c # w) # ws))"

fun joinSlash :: "string list \<Rightarrow> string" where
  "joinSlash [] = []"
| "joinSlash [w] = w"
| "joinSlash (w # v # ws) = w @ CHR ''/'' # joinSlash (v # ws)"

text \<open>
  One step of \<open>normalizeString\<close>: \<open>res\<close> is the result so far, its last segment first.
\<close>

definition normStep :: "bool \<Rightarrow> string list \<Rightarrow> string \<Rightarrow> string list" where
  "normStep allowAboveRoot res seg =
     (if seg = [] \<or> seg = ''.'' then res
      else if seg = ''..'' then
        (case res of
           [] \<Rightarrow> if allowAboveRoot then [''..''] else []
         | seg0 # rest \<Rightarrow>
             if seg0 = ''..'' then (if allowAboveRoot then ''..'' # res else res) else rest)
      else seg # res)"

definition normalizeString :: "string \<Rightarrow> bool \<Rightarrow> string" where
  "normalizeString path allowAboveRoot =
     joinSlash (rev (foldl (normStep allowAboveRoot) [] (splitSlash path)))"

definition normalize :: "string \<Rightarrow> string" where
  "normalize path =
     (if path = [] then ''.''
      else
        (let isAbsolute = (hd path = CHR ''/'');
             trailingSeparator = (last path = CHR ''/'');
             p = normalizeString path (\<not> isAbsolute)
         in if p = [] then (if isAbsolute then ''/'' else if trailingSeparator then ''./'' else ''.'')
            else (if isAbsolute then ''/'' else []) @ p @ (if trailingSeparator then ''/'' else [])))"

definition join :: "string \<Rightarrow> string \<Rightarrow> string" where
  "join a b =
     (let joined = (if a = [] then b else if b = [] then a else a @ CHR ''/'' # b)
      in if joined = [] then ''.'' else normalize joined)"

section \<open>The store and its proxies\<close>

text \<open>The field \<open>identifier\<close> of the class is \<open>store_identifier\<close> here.\<close>

record 's MeshStore =
  store_identifier :: string
  storage :: "'s StoreStorageAdapter"
  flags :: StoreFlags

text \<open>
  What a proxy does is observed through a trace of the calls it makes: the four adapter
  operations with the key they receive, the strategy's \<open>validate\<close> with its three
  arguments, and the setter function of \<open>getWithSet\<close>.
\<close>

datatype event =
    EvExists string
  | EvRead string
  | EvWrite string jsval
  | EvDelete string
  | EvValidate jsval jsval string
  | EvSetter

text \<open>
  The state a proxy works on: its two closure variables \<open>value\<close> and \<open>isValueCached\<close>,
  the state of the shared adapter, and the trace.
\<close>

record 's config =
  valueSlot :: jsval
  isValueCached :: bool
  backing :: 's
  trace :: "event list"

definition fresh :: "'s \<Rightarrow> 's config" where
  "fresh s = \<lparr> valueSlot = JUndefined, isValueCached = False, backing = s, trace = [] \<rparr>"

definition ensureValueCached ::
    "'s StoreStorageAdapter \<Rightarrow> string \<Rightarrow> ProxyOptions \<Rightarrow> 's config \<Rightarrow> (error + unit) \<times> 's config" where
  "ensureValueCached ad path options c =
     (if \<not> isValueCached c then
        (case adapter_exists ad path (backing c) of (r, s1) \<Rightarrow>
           let c1 = c\<lparr>backing := s1, trace := trace c @ [EvExists path]\<rparr> in
           (case r of
              Inl e \<Rightarrow> (Inl e, c1)
            | Inr False \<Rightarrow> (Inr (), c1\<lparr>isValueCached := True\<rparr>)
            | Inr True \<Rightarrow>
                (case adapter_read ad path options (backing c1) of (r2, s2) \<Rightarrow>
                   let c2 = c1\<lparr>backing := s2, trace := trace c1 @ [EvRead path]\<rparr> in
                   (case r2 of
                      Inl e \<Rightarrow> (Inl e, c2)
                    | Inr v \<Rightarrow> (Inr (), c2\<lparr>valueSlot := v, isValueCached := True\<rparr>)))))
      else (Inr (), c))"

text \<open>
  \<open>doValidation\<close>, with the message of the \<open>ValidationError\<close> it throws. The strategy
  receives \<open>id\<close>, the key the proxy was asked for (named \<open>key\<close> here).
\<close>

definition validationMessage :: "string \<Rightarrow> string \<Rightarrow> string \<Rightarrow> string" where
  \<open>validationMessage key ident msg =
     ''Validation failed for "'' @ key @ ''" under "'' @ ident @ ''": '' @ msg\<close>

definition doValidation ::
    "'s MeshStore \<Rightarrow> string \<Rightarrow> string \<Rightarrow> ProxyOptions \<Rightarrow> jsval \<Rightarrow> 's config
       \<Rightarrow> (error + unit) \<times> 's config" where
  "doValidation store path key options newValue c =
     (case ensureValueCached (storage store) path options c of
        (Inl e, c1) \<Rightarrow> (Inl e, c1)
      | (Inr _, c1) \<Rightarrow>
          if truthy (valueSlot c1) \<and> truthy newValue then
            (let c2 = c1\<lparr>trace := trace c1 @ [EvValidate (valueSlot c1) newValue key]\<rparr> in
             case validator options (valueSlot c1) newValue key of
               Inl e \<Rightarrow>
                 (Inl (ValidationError
                    (validationMessage key (store_identifier store) (error_message e))), c2)
             | Inr _ \<Rightarrow> (Inr (), c2))
          else (Inr (), c1))"

definition readonlyMessage :: "string \<Rightarrow> string \<Rightarrow> string" where
  \<open>readonlyMessage key ident =
     ''Unable to set value for "'' @ key @ ''" under "'' @ ident @
     ''" because the store is in read-only mode.''\<close>

text \<open>
  The body of \<open>proxy.set\<close>; \<open>path\<close> is the variable of that name which \<open>proxy\<close> closes
  over.
\<close>

definition do_set ::
    "'s MeshStore \<Rightarrow> string \<Rightarrow> string \<Rightarrow> ProxyOptions \<Rightarrow> jsval \<Rightarrow> 's config
       \<Rightarrow> (error + unit) \<times> 's config" where
  "do_set store path key options newValue c =
     (if readonly (flags store) then
        (Inl (ReadonlyStoreError (readonlyMessage key (store_identifier store))), c)
      else
        (case (if validate (flags store) then doValidation store path key options newValue c
               else (Inr (), c)) of
           (Inl e, c1) \<Rightarrow> (Inl e, c1)
         | (Inr _, c1) \<Rightarrow>
             (let c2 = c1\<lparr>valueSlot := newValue, isValueCached := True\<rparr> in
              case adapter_write (storage store) path (valueSlot c2) options (backing c2) of
                (r, s3) \<Rightarrow>
                  (r, c2\<lparr>backing := s3, trace := trace c2 @ [EvWrite path (valueSlot c2)]\<rparr>))))"

text \<open>
  The body of \<open>proxy.getWithSet\<close>. The setter function is given by what it returns or
  throws.
\<close>

definition do_getWithSet ::
    "'s MeshStore \<Rightarrow> string \<Rightarrow> string \<Rightarrow> ProxyOptions \<Rightarrow> (error + jsval) \<Rightarrow> 's config
       \<Rightarrow> (error + jsval) \<times> 's config" where
  "do_getWithSet store path key options setterFn c =
     (case ensureValueCached (storage store) path options c of
        (Inl e, c1) \<Rightarrow> (Inl e, c1)
      | (Inr _, c1) \<Rightarrow>
          if validate (flags store) \<or> \<not> truthy (valueSlot c1) then
            (let c2 = c1\<lparr>trace := trace c1 @ [EvSetter]\<rparr> in
             case setterFn of
               Inl e \<Rightarrow> (Inl e, c2)
             | Inr newValue \<Rightarrow>
                 (case (if validate (flags store) \<and> readonly (flags store)
                        then doValidation store path key options newValue c2
                        else (Inr (), c2)) of
                    (Inl e, c3) \<Rightarrow> (Inl e, c3)
                  | (Inr _, c3) \<Rightarrow>
                      (case (if \<not> readonly (flags store)
                             then do_set store path key options newValue c3
                             else (Inr (), c3)) of
                         (Inl e, c4) \<Rightarrow> (Inl e, c4)
                       | (Inr _, c4) \<Rightarrow> (Inr (valueSlot c4), c4))))
          else (Inr (valueSlot c1), c1))"

text \<open>The bodies of \<open>proxy.get\<close> and \<open>proxy.delete\<close>.\<close>

definition do_get ::
    "'s MeshStore \<Rightarrow> string \<Rightarrow> ProxyOptions \<Rightarrow> 's config \<Rightarrow> (error + jsval) \<times> 's config" where
  "do_get store path options c =
     (case ensureValueCached (storage store) path options c of
        (Inl e, c1) \<Rightarrow> (Inl e, c1)
      | (Inr _, c1) \<Rightarrow> (Inr (valueSlot c1), c1))"

definition do_delete ::
    "'s MeshStore \<Rightarrow> string \<Rightarrow> 's config \<Rightarrow> (error + unit) \<times> 's config" where
  "do_delete store path c =
     (case adapter_delete (storage store) path (backing c) of
        (r, s1) \<Rightarrow> (r, c\<lparr>backing := s1, trace := trace c @ [EvDelete path]\<rparr>))"

text \<open>
  \<open>MeshStore.proxy\<close>: the four methods of the returned object, closed over
  \<open>path = join(this.identifier, id)\<close>, which is \<open>proxyPath\<close>. The proxy's variables
  \<open>value\<close> and \<open>isValueCached\<close> start as in \<open>fresh\<close>.
\<close>

record 's StoreProxy =
  proxy_getWithSet :: "(error + jsval) \<Rightarrow> 's config \<Rightarrow> (error + jsval) \<times> 's config"
  proxy_get :: "'s config \<Rightarrow> (error + jsval) \<times> 's config"
  proxy_set :: "jsval \<Rightarrow> 's config \<Rightarrow> (error + unit) \<times> 's config"
  proxy_delete :: "'s config \<Rightarrow> (error + unit) \<times> 's config"

definition proxyPath :: "'s MeshStore \<Rightarrow> string \<Rightarrow> string" where
  "proxyPath store key = join (store_identifier store) key"

definition proxy :: "'s MeshStore \<Rightarrow> string \<Rightarrow> ProxyOptions \<Rightarrow> 's StoreProxy" where
  "proxy store key options =
     (let path = proxyPath store key in
      \<lparr> proxy_getWithSet = do_getWithSet store path key options,
        proxy_get = do_get store path options,
        proxy_set = do_set store path key options,
        proxy_delete = do_delete store path \<rparr>)"

text \<open>
  \<open>MeshStore.child\<close>. The optional argument \<open>flags\<close> is a \<open>Partial<StoreFlags>\<close>: each
  field is left out, or is there with the value \<open>undefined\<close>, or is there with a boolean.
  The spread \<open>{...this.flags, ...flags}\<close> copies every field that is there, also one that
  is \<open>undefined\<close>. A flag of \<open>StoreFlags\<close> is kept as the \<open>bool\<close> that the proxy tests
  (\<open>if (this.flags.readonly)\<close>), so a flag that the spread made \<open>undefined\<close> is \<open>False\<close>.
\<close>

datatype flagOverride = Omitted | GivenUndefined | Given bool

fun overrideFlag :: "bool \<Rightarrow> flagOverride \<Rightarrow> bool" where
  "overrideFlag parent Omitted = parent"
| "overrideFlag parent GivenUndefined = False"
| "overrideFlag parent (Given b) = b"

record PartialStoreFlags =
  readonly_opt :: flagOverride
  validate_opt :: flagOverride

definition spreadFlags :: "StoreFlags \<Rightarrow> PartialStoreFlags option \<Rightarrow> StoreFlags" where
  "spreadFlags f ov =
     (case ov of
        None \<Rightarrow> f
      | Some p \<Rightarrow>
          \<lparr> readonly = overrideFlag (readonly f) (readonly_opt p),
            validate = overrideFlag (validate f) (validate_opt p) \<rparr>)"

definition child :: "'s MeshStore \<Rightarrow> string \<Rightarrow> PartialStoreFlags option \<Rightarrow> 's MeshStore" where
  "child store childIdentifier ov =
     \<lparr> store_identifier = join (store_identifier store) childIdentifier,
       storage = storage store,
       flags = spreadFlags (flags store) ov \<rparr>"

section \<open>Observing a proxy\<close>

text \<open>The events a call adds to the trace.\<close>

definition newEvents :: "'s config \<Rightarrow> 's config \<Rightarrow> event list" where
  "newEvents c c' = drop (length (trace c)) (trace c')"

fun isWrite :: "event \<Rightarrow> bool" where
  "isWrite (EvWrite _ _) = True"
| "isWrite _ = False"

fun isValidate :: "event \<Rightarrow> bool" where
  "isValidate (EvValidate _ _ _) = True"
| "isValidate _ = False"

text \<open>
  What a well-behaved proxy over \<open>path\<close> and \<open>key\<close> may emit: adapter calls on \<open>path\<close>,
  the setter, and validations of two truthy values under the identifier \<open>key\<close>.
\<close>

fun okEvent :: "string \<Rightarrow> string \<Rightarrow> event \<Rightarrow> bool" where
  "okEvent path key (EvExists k) = (k = path)"
| "okEvent path key (EvRead k) = (k = path)"
| "okEvent path key (EvWrite k v) = (k = path)"
| "okEvent path key (EvDelete k) = (k = path)"
| "okEvent path key (EvValidate old new i) = (i = key \<and> truthy old \<and> truthy new)"
| "okEvent path key EvSetter = True"

text \<open>An adapter whose \<open>exists\<close> and \<open>read\<close> leave its state as it is.\<close>

definition readsPure :: "'s StoreStorageAdapter \<Rightarrow> bool" where
  "readsPure ad \<longleftrightarrow>
     (\<forall>key s. snd (adapter_exists ad key s) = s) \<and>
     (\<forall>key options s. snd (adapter_read ad key options s) = s)"

text \<open>A call of one of the four methods, and the state it leaves.\<close>

datatype call = Get | Set jsval | GetWithSet "error + jsval" | Delete

fun invoke :: "'s StoreProxy \<Rightarrow> 's config \<Rightarrow> call \<Rightarrow> 's config" where
  "invoke p c Get = snd (proxy_get p c)"
| "invoke p c (Set v) = snd (proxy_set p v c)"
| "invoke p c (GetWithSet setterFn) = snd (proxy_getWithSet p setterFn c)"
| "invoke p c Delete = snd (proxy_delete p c)"

text \<open>
  A plain name: a single path segment that \<open>join\<close> keeps as it is.
\<close>

definition plainName :: "string \<Rightarrow> bool" where
  "plainName w \<longleftrightarrow> w \<noteq> [] \<and> CHR ''/'' \<notin> set w \<and> w \<noteq> ''.'' \<and> w \<noteq> ''..''"

text \<open>
  A plain path: one or more plain names separated by single \<open>/\<close>, such as \<open>sources/a\<close>;
  a relative path that is already in normal form and does not leave its directory.
\<close>

definition plainPath :: "string \<Rightarrow> bool" where
  "plainPath w \<longleftrightarrow> list_all plainName (splitSlash w)"

text \<open>
  For reasoning about \<open>join\<close>: the segment stack that \<open>normalizeString\<close> ends with on a
  path (last segment first), and the shape every such stack has. Its segments are real
  names, except that in a relative path a run of \<open>..\<close> may stand at the bottom.
\<close>

definition stackOf :: "string \<Rightarrow> string list" where
  "stackOf path = foldl (normStep (hd path \<noteq> CHR ''/'')) [] (splitSlash path)"

fun normalStack :: "bool \<Rightarrow> string list \<Rightarrow> bool" where
  "normalStack up [] = True"
| "normalStack up (w # st) =
     (CHR ''/'' \<notin> set w \<and> w \<noteq> [] \<and> w \<noteq> ''.'' \<and>
      (w = ''..'' \<longrightarrow> up \<and> (case st of [] \<Rightarrow> True | v # _ \<Rightarrow> v = ''..'')) \<and>
      normalStack up st)"

text \<open>Example stores and strategies, for evaluating the operations on concrete inputs.\<close>

definition memStore :: "bool \<Rightarrow> bool \<Rightarrow> (string \<rightharpoonup> jsval) MeshStore" where
  "memStore ro va =
     \<lparr> store_identifier = ''root'', storage = InMemoryStoreStorageAdapter,
       flags = \<lparr> readonly = ro, validate = va \<rparr> \<rparr>"

definition rejectAll :: ProxyOptions where
  "rejectAll = \<lparr> codify = (\<lambda>v i. []), validator = (\<lambda>old new i. Inl (Error ''breaking'')) \<rparr>"

definition acceptAll :: ProxyOptions where
  "acceptAll = \<lparr> codify = (\<lambda>v i. []), validator = (\<lambda>old new i. Inr ()) \<rparr>"


text \<open>A strategy whose \<open>codify\<close> writes out the identifier it was given.\<close>

definition echoIdentifier :: ProxyOptions where
  "echoIdentifier = \<lparr> codify = (\<lambda>v i. i), validator = (\<lambda>old new i. Inr ()) \<rparr>"

text \<open>
  A validating store on the filesystem adapter whose every module exports \<open>1\<close>.
\<close>

definition fsValidatingStore :: "(string \<rightharpoonup> string) MeshStore" where
  "fsValidatingStore =
     \<lparr> store_identifier = ''root'',
       storage = FsStoreStorageAdapter (\<lambda>files filePath. Inr (JObj [(''default'', JNum 1)])) id Mjs,
       flags = \<lparr> readonly = False, validate = True \<rparr> \<rparr>"

section \<open>Properties of the schema strategy\<close>

lemma collectErrors_eq:
  "collectErrors changes errors =
     errors @ map change_message
       (filter (\<lambda>c. criticality_level c = Breaking \<or> criticality_level c = Dangerous) changes)"
  by (induction changes arbitrary: errors) simp_all

text \<open>
  C7. The schema strategy's \<open>validate\<close> looks at every change of the diff: when some change
  is Breaking or Dangerous it throws one \<open>AggregateError\<close> whose list holds the message of
  each such change, once and in the order of the diff; when no change is, it returns.
\<close>

theorem schema_validate_aggregates_all:
  "GraphQLSchemaWithDiffing_validate diff aggregateMessage oldSchema newSchema ident =
     (let offending = filter (\<lambda>c. criticality_level c = Breaking \<or> criticality_level c = Dangerous)
                        (diff oldSchema newSchema);
          msgs = map change_message offending
      in if offending = [] then Inr () else Inl (AggregateError msgs (aggregateMessage msgs)))"
  by (simp add: GraphQLSchemaWithDiffing_validate_def collectErrors_eq Let_def)

theorem schema_validate_aggregates_all_witness:
  "GraphQLSchemaWithDiffing_validate
     (\<lambda>a b. [\<lparr>criticality_level = Breaking, change_message = ''field a removed''\<rparr>,
             \<lparr>criticality_level = NonBreaking, change_message = ''field b added''\<rparr>,
             \<lparr>criticality_level = Dangerous, change_message = ''enum value added''\<rparr>])
     concat (JObj []) (JObj []) ''schema''
   = Inl (AggregateError [''field a removed'', ''enum value added'']
            ''field a removedenum value added'')"
  using schema_validate_aggregates_all
    [of "(\<lambda>a b. [\<lparr>criticality_level = Breaking, change_message = ''field a removed''\<rparr>,
             \<lparr>criticality_level = NonBreaking, change_message = ''field b added''\<rparr>,
             \<lparr>criticality_level = Dangerous, change_message = ''enum value added''\<rparr>])"
        concat "JObj []" "JObj []" "''schema''"]
  by simp

section \<open>Properties of the proxy\<close>

subsection \<open>What the operations add to the trace\<close>

text \<open>Both adapters of the package only look at the storage in \<open>exists\<close> and \<open>read\<close>.\<close>

lemma inMemory_readsPure: "readsPure InMemoryStoreStorageAdapter"
  by (simp add: readsPure_def InMemoryStoreStorageAdapter_def)

lemma fs_readsPure: "readsPure (FsStoreStorageAdapter imp flat ext)"
  by (simp add: readsPure_def FsStoreStorageAdapter_def Let_def split: sum.splits)

lemma newEvents_append: "trace c' = trace c @ evs \<Longrightarrow> newEvents c c' = evs"
  by (simp add: newEvents_def)

lemma ensure_cached_id:
  "isValueCached c \<Longrightarrow> ensureValueCached ad path options c = (Inr (), c)"
  by (simp add: ensureValueCached_def)

lemma ensure_trace:
  assumes "ensureValueCached ad path options c = (r, c')"
  shows "\<exists>evs. trace c' = trace c @ evs \<and> set evs \<subseteq> {EvExists path, EvRead path}"
  using assms
  by (auto simp: ensureValueCached_def Let_def
           split: if_splits prod.splits sum.splits bool.splits)

lemma ensure_ok_cached:
  assumes "ensureValueCached ad path options c = (Inr u, c')"
  shows "isValueCached c'"
  using assms
  by (auto simp: ensureValueCached_def Let_def
           split: if_splits prod.splits sum.splits bool.splits)

lemma ensure_backing:
  assumes "ensureValueCached ad path options c = (r, c')" "readsPure ad"
  shows "backing c' = backing c"
  using assms
  by (auto simp: ensureValueCached_def Let_def readsPure_def
           split: if_splits prod.splits sum.splits bool.splits
           dest!: arg_cong[where f=snd])

lemma doValidation_trace:
  assumes "doValidation store path key options nv c = (r, c')"
  shows "\<exists>evs. trace c' = trace c @ evs \<and> (\<forall>e\<in>set evs. okEvent path key e \<and> \<not> isWrite e)
           \<and> length (filter isValidate evs) \<le> 1"
proof -
  obtain r1 c1 where e1: "ensureValueCached (storage store) path options c = (r1, c1)"
    by (cases "ensureValueCached (storage store) path options c")
  from ensure_trace[OF e1] obtain evs1 where
    t1: "trace c1 = trace c @ evs1" and s1: "set evs1 \<subseteq> {EvExists path, EvRead path}" by blast
  have ok1: "\<forall>e\<in>set evs1. okEvent path key e \<and> \<not> isWrite e \<and> \<not> isValidate e"
    using s1 by auto
  then have f1: "filter isValidate evs1 = []" by (simp add: filter_empty_conv)
  show ?thesis
    using assms e1 t1 ok1 f1
    by (auto simp: doValidation_def Let_def split: sum.splits if_splits)
qed


lemma do_set_trace:
  assumes "do_set store path key options nv c = (r, c')"
  shows "\<exists>evs. trace c' = trace c @ evs \<and> (\<forall>e\<in>set evs. okEvent path key e)
           \<and> length (filter isValidate evs) \<le> 1"
proof (cases "readonly (flags store)")
  case True
  with assms show ?thesis by (simp add: do_set_def)
next
  case ro: False
  show ?thesis
  proof (cases "validate (flags store)")
    case False
    with ro assms show ?thesis
      by (auto simp: do_set_def Let_def split: prod.splits)
  next
    case True
    obtain r1 c1 where d: "doValidation store path key options nv c = (r1, c1)"
      by (cases "doValidation store path key options nv c")
    from doValidation_trace[OF d] obtain evs where
      "trace c1 = trace c @ evs" "\<forall>e\<in>set evs. okEvent path key e \<and> \<not> isWrite e"
      "length (filter isValidate evs) \<le> 1" by blast
    with ro True assms d show ?thesis
      by (auto simp: do_set_def Let_def split: prod.splits sum.splits)
  qed
qed


lemma do_getWithSet_trace:
  assumes "do_getWithSet store path key options setterFn c = (r, c')"
  shows "\<exists>evs. trace c' = trace c @ evs \<and> (\<forall>e\<in>set evs. okEvent path key e)
           \<and> length (filter isValidate evs) \<le> 1"
proof -
  obtain r1 c1 where e1: "ensureValueCached (storage store) path options c = (r1, c1)"
    by (cases "ensureValueCached (storage store) path options c")
  from ensure_trace[OF e1] obtain evs1 where
    t1: "trace c1 = trace c @ evs1" and s1: "set evs1 \<subseteq> {EvExists path, EvRead path}" by blast
  have ok1: "\<forall>e\<in>set evs1. okEvent path key e \<and> \<not> isValidate e"
    using s1 by auto
  then have f1: "filter isValidate evs1 = []" by (simp add: filter_empty_conv)
  show ?thesis
  proof (cases r1)
    case (Inl e)
    with assms e1 t1 ok1 f1 show ?thesis by (auto simp: do_getWithSet_def)
  next
    case (Inr u)
    show ?thesis
    proof (cases "validate (flags store) \<or> \<not> truthy (valueSlot c1)")
      case False
      with Inr assms e1 t1 ok1 f1 show ?thesis by (auto simp: do_getWithSet_def)
    next
      case br: True
      define c2 where "c2 = c1\<lparr>trace := trace c1 @ [EvSetter]\<rparr>"
      have t2: "trace c2 = trace c @ (evs1 @ [EvSetter])" by (simp add: c2_def t1)
      show ?thesis
      proof (cases setterFn)
        case (Inl e)
        with Inr br assms e1 t2 ok1 f1 show ?thesis
          by (auto simp: do_getWithSet_def Let_def c2_def)
      next
        case nv: (Inr newValue)
        show ?thesis
        proof (cases "readonly (flags store)")
          case ro: True
          show ?thesis
          proof (cases "validate (flags store)")
            case False
            with ro nv Inr br assms e1 t2 ok1 f1 show ?thesis
              by (auto simp: do_getWithSet_def Let_def c2_def)
          next
            case va: True
            obtain r3 c3 where d: "doValidation store path key options newValue c2 = (r3, c3)"
              by (cases "doValidation store path key options newValue c2")
            from doValidation_trace[OF d] obtain evs3 where
              "trace c3 = trace c2 @ evs3" "\<forall>e\<in>set evs3. okEvent path key e \<and> \<not> isWrite e"
              "length (filter isValidate evs3) \<le> 1" by blast
            with va ro nv Inr br assms e1 t2 ok1 f1 d show ?thesis
              by (auto simp: do_getWithSet_def Let_def c2_def[symmetric] split: sum.splits)
          qed
        next
          case rw: False
          obtain r3 c3 where d: "do_set store path key options newValue c2 = (r3, c3)"
            by (cases "do_set store path key options newValue c2")
          from do_set_trace[OF d] obtain evs3 where
            "trace c3 = trace c2 @ evs3" "\<forall>e\<in>set evs3. okEvent path key e"
            "length (filter isValidate evs3) \<le> 1" by blast
          with rw nv Inr br assms e1 t2 ok1 f1 d show ?thesis
            by (auto simp: do_getWithSet_def Let_def c2_def[symmetric] split: sum.splits)
        qed
      qed
    qed
  qed
qed

subsection \<open>Writing to a read-only store\<close>

text \<open>
  C2. On a store with \<open>readonly = true\<close>, \<open>set(v)\<close> of any proxy fails with a
  \<open>ReadonlyStoreError\<close> whose message names the proxy key and the identifier of the store,
  and leaves the whole state as it was: no adapter call is made (the trace is the same, so
  \<open>write\<close> is never invoked), the storage is the same and so is the cached value slot.
\<close>

theorem set_readonly_fails:
  \<open>readonly (flags store) \<Longrightarrow>
     proxy_set (proxy store key options) v c =
       (Inl (ReadonlyStoreError
          (''Unable to set value for "'' @ key @ ''" under "'' @ store_identifier store @
           ''" because the store is in read-only mode.'')), c)\<close>
  by (simp add: proxy_def do_set_def readonlyMessage_def Let_def)

theorem set_readonly_fails_witness:
  \<open>readonly (flags (memStore True False)) \<and>
   proxy_set (proxy (memStore True False) ''k'' acceptAll) (JNum 42) (fresh Map.empty)
    = (Inl (ReadonlyStoreError
         ''Unable to set value for "k" under "root" because the store is in read-only mode.''),
       fresh Map.empty)\<close>
  using set_readonly_fails [of "memStore True False" "''k''" acceptAll "JNum 42" "fresh Map.empty"]
  by (simp add: memStore_def)

subsection \<open>The methods of a proxy\<close>

lemma proxy_sel:
  "proxy_getWithSet (proxy store key options) = do_getWithSet store (proxyPath store key) key options"
  "proxy_get (proxy store key options) = do_get store (proxyPath store key) options"
  "proxy_set (proxy store key options) = do_set store (proxyPath store key) key options"
  "proxy_delete (proxy store key options) = do_delete store (proxyPath store key)"
  by (simp_all add: proxy_def Let_def)

lemma doValidation_when_cached:
  "isValueCached c \<Longrightarrow>
   doValidation store path key options nv c =
     (if truthy (valueSlot c) \<and> truthy nv then
        (case validator options (valueSlot c) nv key of
           Inl e \<Rightarrow> (Inl (ValidationError
                      (validationMessage key (store_identifier store) (error_message e))),
                    c\<lparr>trace := trace c @ [EvValidate (valueSlot c) nv key]\<rparr>)
         | Inr u \<Rightarrow> (Inr (), c\<lparr>trace := trace c @ [EvValidate (valueSlot c) nv key]\<rparr>))
      else (Inr (), c))"
  by (simp add: doValidation_def ensure_cached_id Let_def split: sum.splits)

lemma doValidation_skip:
  "isValueCached c \<Longrightarrow> \<not> (truthy (valueSlot c) \<and> truthy nv) \<Longrightarrow>
   doValidation store path key options nv c = (Inr (), c)"
  by (auto simp: doValidation_when_cached)

lemma doValidation_reject:
  "isValueCached c \<Longrightarrow> truthy (valueSlot c) \<Longrightarrow> truthy nv \<Longrightarrow>
   validator options (valueSlot c) nv key = Inl e \<Longrightarrow>
   doValidation store path key options nv c =
     (Inl (ValidationError (validationMessage key (store_identifier store) (error_message e))),
      c\<lparr>trace := trace c @ [EvValidate (valueSlot c) nv key]\<rparr>)"
  by (simp add: doValidation_when_cached)

lemma doValidation_accept:
  "isValueCached c \<Longrightarrow> truthy (valueSlot c) \<Longrightarrow> truthy nv \<Longrightarrow>
   validator options (valueSlot c) nv key = Inr u \<Longrightarrow>
   doValidation store path key options nv c =
     (Inr (), c\<lparr>trace := trace c @ [EvValidate (valueSlot c) nv key]\<rparr>)"
  by (simp add: doValidation_when_cached)

lemma do_get_eq:
  "do_get store path options c =
     (case ensureValueCached (storage store) path options c of
        (Inl e, c1) \<Rightarrow> (Inl e, c1) | (Inr u, c1) \<Rightarrow> (Inr (valueSlot c1), c1))"
  by (simp add: do_get_def)

lemma getWithSet_inspect_aux:
  assumes ro: "readonly (flags store)" and va: "validate (flags store)"
    and run: "do_getWithSet store path key options setterFn c = (r, c')"
    and g: "do_get store path options c = (g, c1)"
  shows "(\<exists>evs. trace c' = trace c @ evs \<and> (\<forall>e\<in>set evs. \<not> isWrite e))
       \<and> (readsPure (storage store) \<longrightarrow> backing c' = backing c)
       \<and> valueSlot c' = valueSlot c1
       \<and> (\<forall>old nv e. g = Inr old \<and> setterFn = Inr nv \<and> truthy old \<and> truthy nv \<and>
                    validator options old nv key = Inl e \<longrightarrow>
               r = Inl (ValidationError
                     (validationMessage key (store_identifier store) (error_message e))))"
proof -
  obtain r1 d1 where e1: "ensureValueCached (storage store) path options c = (r1, d1)"
    by (cases "ensureValueCached (storage store) path options c")
  from ensure_trace[OF e1] obtain evs1 where
    t1: "trace d1 = trace c @ evs1" and s1: "set evs1 \<subseteq> {EvExists path, EvRead path}" by blast
  have nw1: "\<forall>e\<in>set evs1. \<not> isWrite e" using s1 by auto
  have b1: "readsPure (storage store) \<longrightarrow> backing d1 = backing c"
    using ensure_backing[OF e1] by simp
  have c1: "c1 = d1" using g e1 by (auto simp: do_get_eq split: sum.splits)
  show ?thesis
  proof (cases r1)
    case (Inl e)
    with run g e1 t1 nw1 b1 c1 show ?thesis
      by (auto simp: do_getWithSet_def do_get_eq)
  next
    case (Inr u)
    then have cached: "isValueCached d1" using e1 ensure_ok_cached by blast
    have gv: "g = Inr (valueSlot d1)" using g e1 Inr by (auto simp: do_get_eq)
    define c2 where "c2 = d1\<lparr>trace := trace d1 @ [EvSetter]\<rparr>"
    have c2: "isValueCached c2" "valueSlot c2 = valueSlot d1" "backing c2 = backing d1"
      "trace c2 = trace c @ evs1 @ [EvSetter]"
      by (simp_all add: c2_def cached t1)
    show ?thesis
    proof (cases setterFn)
      case (Inl e)
      with run e1 Inr va c2 nw1 b1 c1 show ?thesis
        by (auto simp: do_getWithSet_def Let_def c2_def[symmetric])
    next
      case nv: (Inr newValue)
      obtain r3 d3 where dv: "doValidation store path key options newValue c2 = (r3, d3)"
        by (cases "doValidation store path key options newValue c2")
      have run': "(case r3 of Inl e \<Rightarrow> (Inl e, d3) | Inr u \<Rightarrow> (Inr (valueSlot d3), d3)) = (r, c')"
        using run e1 Inr va ro nv dv
        by (cases r3) (auto simp: do_getWithSet_def Let_def c2_def[symmetric])
      show ?thesis
      proof (cases "truthy (valueSlot c2) \<and> truthy newValue")
        case False
        then have "doValidation store path key options newValue c2 = (Inr (), c2)"
          using doValidation_skip[OF c2(1)] by blast
        with run' dv have "r = Inr (valueSlot c2)" "c' = c2" by auto
        with c2 nw1 b1 c1 gv nv False show ?thesis by auto
      next
        case True
        define c3 where "c3 = c2\<lparr>trace := trace c2 @ [EvValidate (valueSlot c2) newValue key]\<rparr>"
        have c3: "valueSlot c3 = valueSlot d1" "backing c3 = backing d1"
          "trace c3 = trace c @ evs1 @ [EvSetter, EvValidate (valueSlot c2) newValue key]"
          by (simp_all add: c3_def c2)
        show ?thesis
        proof (cases "validator options (valueSlot c2) newValue key")
          case (Inl e)
          with True have "doValidation store path key options newValue c2 =
              (Inl (ValidationError
                      (validationMessage key (store_identifier store) (error_message e))), c3)"
            by (simp add: doValidation_reject[OF c2(1)] c3_def)
          with run' dv have "r = Inl (ValidationError
                      (validationMessage key (store_identifier store) (error_message e)))" "c' = c3"
            by auto
          with c3 c2 nw1 b1 c1 gv nv Inl show ?thesis by auto
        next
          case (Inr u)
          with True have "doValidation store path key options newValue c2 = (Inr (), c3)"
            by (simp add: doValidation_accept[OF c2(1)] c3_def)
          with run' dv have "r = Inr (valueSlot c3)" "c' = c3" by auto
          with c3 c2 nw1 b1 c1 gv nv Inr show ?thesis by auto
        qed
      qed
    qed
  qed
qed

lemma do_get_when_cached:
  "isValueCached c \<Longrightarrow> do_get store path options c = (Inr (valueSlot c), c)"
  by (simp add: do_get_def ensure_cached_id)

lemma do_get_uncached_read:
  assumes "\<not> isValueCached c"
    "adapter_exists (storage store) path (backing c) = (Inr True, s1)"
    "adapter_read (storage store) path options s1 = (Inr old, s2)"
  shows "do_get store path options c =
           (Inr old, c\<lparr> backing := s2, trace := trace c @ [EvExists path, EvRead path],
                        valueSlot := old, isValueCached := True \<rparr>)"
  using assms by (simp add: do_get_def ensureValueCached_def Let_def)

subsection \<open>Inspecting without writing\<close>

text \<open>
  C1, as amended. On a store with \<open>readonly = true\<close> and \<open>validate = true\<close>,
  \<open>getWithSet\<close> never persists the candidate: what the call adds to the trace holds no
  \<open>write\<close>, the storage is the same before and after (for an adapter whose \<open>exists\<close> and
  \<open>read\<close> do not change it), and the cached value is the existing one, not the candidate.
  The existing value is what \<open>get\<close> returns: the value the adapter's \<open>read\<close> resolves to
  when the proxy has nothing cached and \<open>exists\<close> resolves to true, the cached value when
  it has. The candidate is validated against that value when both are truthy: if the
  strategy then rejects the pair, the call fails with the \<open>ValidationError\<close> for the key
  and the store's identifier.
\<close>

theorem getWithSet_readonly_validate_inspects:
  assumes ro: "readonly (flags store)" and va: "validate (flags store)"
    and run: "proxy_getWithSet (proxy store key options) setterFn c = (r, c')"
  shows \<open>trace c' = trace c @ newEvents c c'
       \<and> (\<forall>e\<in>set (newEvents c c'). \<not> isWrite e)
       \<and> (readsPure (storage store) \<longrightarrow> backing c' = backing c)
       \<and> valueSlot c' = valueSlot (snd (proxy_get (proxy store key options) c))
       \<and> (\<forall>old nv e. fst (proxy_get (proxy store key options) c) = Inr old \<and>
                    setterFn = Inr nv \<and> truthy old \<and> truthy nv \<and>
                    validator options old nv key = Inl e \<longrightarrow>
               r = Inl (ValidationError
                     (''Validation failed for "'' @ key @ ''" under "'' @ store_identifier store @
                      ''": '' @ error_message e)))
       \<and> (\<forall>old s1 s2. \<not> isValueCached c \<and>
             adapter_exists (storage store) (join (store_identifier store) key) (backing c)
               = (Inr True, s1) \<and>
             adapter_read (storage store) (join (store_identifier store) key) options s1
               = (Inr old, s2) \<longrightarrow>
               fst (proxy_get (proxy store key options) c) = Inr old \<and> valueSlot c' = old)
       \<and> (isValueCached c \<longrightarrow>
             fst (proxy_get (proxy store key options) c) = Inr (valueSlot c) \<and>
             valueSlot c' = valueSlot c)\<close>
proof -
  let ?path = "proxyPath store key"
  obtain g c1 where g: "do_get store ?path options c = (g, c1)"
    by (cases "do_get store ?path options c")
  from run have run': "do_getWithSet store ?path key options setterFn c = (r, c')"
    by (simp add: proxy_sel)
  from getWithSet_inspect_aux[OF ro va run' g] obtain evs where
    t: "trace c' = trace c @ evs" and nw: "\<forall>e\<in>set evs. \<not> isWrite e"
    and rest: "readsPure (storage store) \<longrightarrow> backing c' = backing c"
      "valueSlot c' = valueSlot c1"
      "\<forall>old nv e. g = Inr old \<and> setterFn = Inr nv \<and> truthy old \<and> truthy nv \<and>
                    validator options old nv key = Inl e \<longrightarrow>
               r = Inl (ValidationError
                     (validationMessage key (store_identifier store) (error_message e)))"
    by blast
  have ne: "newEvents c c' = evs" using t by (rule newEvents_append)
  have pin: "g = Inr old \<and> valueSlot c1 = old"
    if "\<not> isValueCached c"
      "adapter_exists (storage store) ?path (backing c) = (Inr True, s1)"
      "adapter_read (storage store) ?path options s1 = (Inr old, s2)" for old s1 s2
    using do_get_uncached_read[OF that] g by simp
  have cached: "g = Inr (valueSlot c) \<and> valueSlot c1 = valueSlot c" if "isValueCached c"
    using do_get_when_cached[OF that, of store ?path options] g by simp
  have p1: "\<forall>old s1 s2. \<not> isValueCached c \<and>
             adapter_exists (storage store) (join (store_identifier store) key) (backing c)
               = (Inr True, s1) \<and>
             adapter_read (storage store) (join (store_identifier store) key) options s1
               = (Inr old, s2) \<longrightarrow>
               fst (proxy_get (proxy store key options) c) = Inr old \<and> valueSlot c' = old"
    using pin rest(2) g by (simp add: proxy_sel proxyPath_def)
  have p2: "isValueCached c \<longrightarrow>
             fst (proxy_get (proxy store key options) c) = Inr (valueSlot c) \<and>
             valueSlot c' = valueSlot c"
    using cached rest(2) g by (simp add: proxy_sel)
  have main: \<open>trace c' = trace c @ newEvents c c'
       \<and> (\<forall>e\<in>set (newEvents c c'). \<not> isWrite e)
       \<and> (readsPure (storage store) \<longrightarrow> backing c' = backing c)
       \<and> valueSlot c' = valueSlot (snd (proxy_get (proxy store key options) c))
       \<and> (\<forall>old nv e. fst (proxy_get (proxy store key options) c) = Inr old \<and>
                    setterFn = Inr nv \<and> truthy old \<and> truthy nv \<and>
                    validator options old nv key = Inl e \<longrightarrow>
               r = Inl (ValidationError
                     (''Validation failed for "'' @ key @ ''" under "'' @ store_identifier store @
                      ''": '' @ error_message e)))\<close>
    using t nw rest g
    by (simp add: ne proxy_sel validationMessage_def)
  from main p1 p2 show ?thesis by blast
qed

lemma join_root_k: "join ''root'' ''k'' = ''root/k''"
  by (simp add: join_def normalize_def normalizeString_def normStep_def Let_def)

lemmas eval_defs = memStore_def rejectAll_def acceptAll_def proxy_def proxyPath_def join_root_k
  do_getWithSet_def do_get_def do_set_def do_delete_def ensureValueCached_def doValidation_def
  InMemoryStoreStorageAdapter_def fresh_def validationMessage_def readonlyMessage_def Let_def
  newEvents_def

theorem getWithSet_readonly_validate_inspects_witness:
  \<open>readonly (flags (memStore True True)) \<and> validate (flags (memStore True True)) \<and>
   proxy_getWithSet (proxy (memStore True True) ''k'' rejectAll) (Inr (JNum 2))
       (fresh [''root/k'' \<mapsto> JNum 1])
     = (Inl (ValidationError ''Validation failed for "k" under "root": breaking''),
        \<lparr> valueSlot = JNum 1, isValueCached = True, backing = [''root/k'' \<mapsto> JNum 1],
          trace = [EvExists ''root/k'', EvRead ''root/k'', EvSetter,
                   EvValidate (JNum 1) (JNum 2) ''k''] \<rparr>) \<and>
   readsPure (storage (memStore True True)) \<and>
   fst (proxy_get (proxy (memStore True True) ''k'' rejectAll) (fresh [''root/k'' \<mapsto> JNum 1]))
     = Inr (JNum 1) \<and>
   truthy (JNum 1) \<and> truthy (JNum 2) \<and>
   validator rejectAll (JNum 1) (JNum 2) ''k'' = Inl (Error ''breaking'') \<and>
   list_all (\<lambda>e. \<not> isWrite e)
     (newEvents (fresh [''root/k'' \<mapsto> JNum 1])
        (snd (proxy_getWithSet (proxy (memStore True True) ''k'' rejectAll) (Inr (JNum 2))
               (fresh [''root/k'' \<mapsto> JNum 1])))) \<and>
   backing (snd (proxy_getWithSet (proxy (memStore True True) ''k'' rejectAll) (Inr (JNum 2))
               (fresh [''root/k'' \<mapsto> JNum 1]))) = [''root/k'' \<mapsto> JNum 1]\<close>
proof -
  let ?c = "fresh [''root/k'' \<mapsto> JNum 1]"
  let ?p = "proxy (memStore True True) ''k'' rejectAll"
  have ro: "readonly (flags (memStore True True))" and va: "validate (flags (memStore True True))"
    by (simp_all add: memStore_def)
  have pure: "readsPure (storage (memStore True True))"
    by (simp add: readsPure_def memStore_def InMemoryStoreStorageAdapter_def)
  have run: \<open>proxy_getWithSet ?p (Inr (JNum 2)) ?c
     = (Inl (ValidationError ''Validation failed for "k" under "root": breaking''),
        \<lparr> valueSlot = JNum 1, isValueCached = True, backing = [''root/k'' \<mapsto> JNum 1],
          trace = [EvExists ''root/k'', EvRead ''root/k'', EvSetter,
                   EvValidate (JNum 1) (JNum 2) ''k''] \<rparr>)\<close>
    by (simp add: eval_defs)
  from getWithSet_readonly_validate_inspects[OF ro va run] pure
  have "(\<forall>e\<in>set (newEvents ?c (snd (proxy_getWithSet ?p (Inr (JNum 2)) ?c))). \<not> isWrite e)
      \<and> backing (snd (proxy_getWithSet ?p (Inr (JNum 2)) ?c)) = backing ?c"
    by (simp add: run)
  moreover have "fst (proxy_get ?p ?c) = Inr (JNum 1)"
    by (simp add: eval_defs)
  moreover have "validator rejectAll (JNum 1) (JNum 2) ''k'' = Inl (Error ''breaking'')"
    by (simp add: rejectAll_def)
  ultimately show ?thesis using ro va run pure
    by (simp add: list_all_iff fresh_def)
qed

text \<open>
  The claim as stated, for every existing value, fails: the guard of \<open>doValidation\<close> is
  the truthiness test \<open>value && newValue\<close>. With the stored value \<open>0\<close> and a strategy that
  rejects everything, \<open>getWithSet\<close> returns normally and the strategy is never asked.
\<close>

theorem getWithSet_skips_validation_of_falsy_value:
  \<open>readonly (flags (memStore True True)) \<and> validate (flags (memStore True True)) \<and>
   \<not> absent (JNum 0) \<and> \<not> absent (JNum 1) \<and>
   adapter_read (storage (memStore True True)) ''root/k'' rejectAll [''root/k'' \<mapsto> JNum 0]
     = (Inr (JNum 0), [''root/k'' \<mapsto> JNum 0]) \<and>
   validator rejectAll (JNum 0) (JNum 1) ''k'' = Inl (Error ''breaking'') \<and>
   proxy_getWithSet (proxy (memStore True True) ''k'' rejectAll) (Inr (JNum 1))
       (fresh [''root/k'' \<mapsto> JNum 0])
     = (Inr (JNum 0),
        \<lparr> valueSlot = JNum 0, isValueCached = True, backing = [''root/k'' \<mapsto> JNum 0],
          trace = [EvExists ''root/k'', EvRead ''root/k'', EvSetter] \<rparr>)\<close>
  by (simp add: eval_defs)

lemma truthy_not_absent: "truthy v \<Longrightarrow> \<not> absent v"
  by (cases v) simp_all

lemma do_get_result:
  assumes "do_get store path options c = (Inr v, c1)"
  shows "ensureValueCached (storage store) path options c = (Inr (), c1)" "valueSlot c1 = v"
    "isValueCached c1"
  using assms
  by (auto simp: do_get_eq split: prod.splits sum.splits dest: ensure_ok_cached)

lemma do_get_trace:
  assumes "do_get store path options c = (r, c')"
  shows "\<exists>evs. trace c' = trace c @ evs \<and> set evs \<subseteq> {EvExists path, EvRead path}"
proof -
  obtain r1 c1 where e1: "ensureValueCached (storage store) path options c = (r1, c1)"
    by (cases "ensureValueCached (storage store) path options c")
  with assms have "c' = c1" by (auto simp: do_get_eq split: sum.splits)
  with ensure_trace[OF e1] show ?thesis by simp
qed

subsection \<open>A rejected write\<close>

text \<open>
  C3, as amended. On a store with \<open>validate = true\<close> and \<open>readonly = false\<close>, let \<open>old\<close> be
  the value a \<open>get\<close> returns. When \<open>old\<close> and the new value are both truthy and the
  strategy's \<open>validate\<close> throws on them, \<open>set(newValue)\<close> fails with the \<open>ValidationError\<close>
  for the key and the store's identifier; the state it leaves is the state after that
  \<open>get\<close> with the validation recorded: the cached value is \<open>old\<close>, no \<open>write\<close> was called
  and the storage is as before (for an adapter whose \<open>exists\<close> and \<open>read\<close> do not change
  it); a proxy that had its value cached keeps its slot as it was.
\<close>

theorem set_rejected_leaves_storage:
  assumes va: "validate (flags store)" and rw: "\<not> readonly (flags store)"
    and g: "proxy_get (proxy store key options) c = (Inr old, c1)"
    and tr: "truthy old" "truthy newValue"
    and rej: "validator options old newValue key = Inl e"
  shows \<open>proxy_set (proxy store key options) newValue c =
           (Inl (ValidationError
              (''Validation failed for "'' @ key @ ''" under "'' @ store_identifier store @
               ''": '' @ error_message e)),
            c1\<lparr>trace := trace c1 @ [EvValidate old newValue key]\<rparr>)
         \<and> valueSlot c1 = old
         \<and> (\<forall>ev\<in>set (newEvents c c1). \<not> isWrite ev)
         \<and> (readsPure (storage store) \<longrightarrow> backing c1 = backing c)
         \<and> (isValueCached c \<longrightarrow> c1 = c)\<close>
proof -
  let ?path = "proxyPath store key"
  from g have g': "do_get store ?path options c = (Inr old, c1)" by (simp add: proxy_sel)
  note r = do_get_result[OF g']
  from do_get_trace[OF g'] obtain evs where
    t: "trace c1 = trace c @ evs" and s: "set evs \<subseteq> {EvExists ?path, EvRead ?path}" by blast
  have ne: "newEvents c c1 = evs" using t by (rule newEvents_append)
  have nw: "\<forall>ev\<in>set evs. \<not> isWrite ev" using s by auto
  have dv: "doValidation store ?path key options newValue c =
      (Inl (ValidationError (validationMessage key (store_identifier store) (error_message e))),
       c1\<lparr>trace := trace c1 @ [EvValidate old newValue key]\<rparr>)"
    using r tr rej by (simp add: doValidation_def Let_def)
  have "do_set store ?path key options newValue c =
      (Inl (ValidationError (validationMessage key (store_identifier store) (error_message e))),
       c1\<lparr>trace := trace c1 @ [EvValidate old newValue key]\<rparr>)"
    using va rw dv by (simp add: do_set_def)
  moreover have "readsPure (storage store) \<longrightarrow> backing c1 = backing c"
    using ensure_backing[OF r(1)] by simp
  moreover have "isValueCached c \<longrightarrow> c1 = c"
    using g' by (auto simp: do_get_when_cached)
  ultimately show ?thesis
    using r(2) nw by (simp add: proxy_sel ne validationMessage_def)
qed

theorem set_rejected_leaves_storage_witness:
  \<open>validate (flags (memStore False True)) \<and> \<not> readonly (flags (memStore False True)) \<and>
   proxy_get (proxy (memStore False True) ''k'' rejectAll) (fresh [''root/k'' \<mapsto> JNum 1])
     = (Inr (JNum 1),
        \<lparr> valueSlot = JNum 1, isValueCached = True, backing = [''root/k'' \<mapsto> JNum 1],
          trace = [EvExists ''root/k'', EvRead ''root/k''] \<rparr>) \<and>
   truthy (JNum 1) \<and> truthy (JNum 2) \<and>
   validator rejectAll (JNum 1) (JNum 2) ''k'' = Inl (Error ''breaking'') \<and>
   proxy_set (proxy (memStore False True) ''k'' rejectAll) (JNum 2) (fresh [''root/k'' \<mapsto> JNum 1])
     = (Inl (ValidationError ''Validation failed for "k" under "root": breaking''),
        \<lparr> valueSlot = JNum 1, isValueCached = True, backing = [''root/k'' \<mapsto> JNum 1],
          trace = [EvExists ''root/k'', EvRead ''root/k'', EvValidate (JNum 1) (JNum 2) ''k''] \<rparr>)\<close>
proof -
  have va: "validate (flags (memStore False True))" and rw: "\<not> readonly (flags (memStore False True))"
    by (simp_all add: memStore_def)
  have g: "proxy_get (proxy (memStore False True) ''k'' rejectAll) (fresh [''root/k'' \<mapsto> JNum 1])
     = (Inr (JNum 1),
        \<lparr> valueSlot = JNum 1, isValueCached = True, backing = [''root/k'' \<mapsto> JNum 1],
          trace = [EvExists ''root/k'', EvRead ''root/k''] \<rparr>)"
    by (simp add: eval_defs)
  have tr: "truthy (JNum 1)" "truthy (JNum 2)" by simp_all
  have rej: "validator rejectAll (JNum 1) (JNum 2) ''k'' = Inl (Error ''breaking'')"
    by (simp add: rejectAll_def)
  from set_rejected_leaves_storage[OF va rw g tr rej] show ?thesis
    using va rw g rej by (simp add: memStore_def)
qed

text \<open>
  The claim as stated, for values that are present, fails: the guard of \<open>doValidation\<close> is
  the truthiness test \<open>value && newValue\<close>. A stored \<open>0\<close> is present and falsy, so a
  strategy that rejects everything is never asked and the new value is written.
\<close>

theorem set_skips_validation_of_falsy_value:
  \<open>validate (flags (memStore False True)) \<and> \<not> readonly (flags (memStore False True)) \<and>
   \<not> absent (JNum 0) \<and> \<not> absent (JNum 1) \<and>
   fst (proxy_get (proxy (memStore False True) ''k'' rejectAll) (fresh [''root/k'' \<mapsto> JNum 0]))
     = Inr (JNum 0) \<and>
   validator rejectAll (JNum 0) (JNum 1) ''k'' = Inl (Error ''breaking'') \<and>
   proxy_set (proxy (memStore False True) ''k'' rejectAll) (JNum 1) (fresh [''root/k'' \<mapsto> JNum 0])
     = (Inr (),
        \<lparr> valueSlot = JNum 1, isValueCached = True, backing = [''root/k'' \<mapsto> JNum 1],
          trace = [EvExists ''root/k'', EvRead ''root/k'', EvWrite ''root/k'' (JNum 1)] \<rparr>)\<close>
  by (simp add: eval_defs)

subsection \<open>Loading once\<close>










subsection \<open>How often a call validates\<close>

lemma getWithSet_validate_count:
  "length (filter isValidate
     (newEvents c (snd (do_getWithSet store path key options setterFn c)))) \<le> 1"
proof -
  obtain r c' where run: "do_getWithSet store path key options setterFn c = (r, c')"
    by (cases "do_getWithSet store path key options setterFn c")
  from do_getWithSet_trace[OF run] obtain evs where
    "trace c' = trace c @ evs" "length (filter isValidate evs) \<le> 1" by blast
  then show ?thesis by (simp add: run newEvents_append)
qed

lemma getWithSet_writable_eq:
  assumes va: "validate (flags store)" and rw: "\<not> readonly (flags store)"
    and g: "do_get store path options c = (Inr old, c1)"
  shows "do_getWithSet store path key options (Inr nv) c =
           (case do_set store path key options nv (c1\<lparr>trace := trace c1 @ [EvSetter]\<rparr>) of
              (Inl e, c4) \<Rightarrow> (Inl e, c4)
            | (Inr u, c4) \<Rightarrow> (Inr (valueSlot c4), c4))"
  using do_get_result(1)[OF g] va rw
  by (simp add: do_getWithSet_def Let_def)

text \<open>
  C5, as amended. On a store with \<open>validate = true\<close> and \<open>readonly = false\<close>,
  \<open>getWithSet\<close> loads the value as \<open>get\<close> does, calls the setter and persists the candidate
  through \<open>set\<close>, which validates it; the validation of \<open>getWithSet\<close> itself runs only on a
  read-only store. So a single \<open>getWithSet\<close> call invokes the strategy's \<open>validate\<close> at most
  once.
\<close>

theorem getWithSet_validates_at_most_once:
  assumes va: "validate (flags store)" and rw: "\<not> readonly (flags store)"
  shows "length (filter isValidate
           (newEvents c (snd (proxy_getWithSet (proxy store key options) setterFn c)))) \<le> 1
       \<and> (\<forall>old c1 nv. proxy_get (proxy store key options) c = (Inr old, c1) \<and> setterFn = Inr nv \<longrightarrow>
            proxy_getWithSet (proxy store key options) setterFn c =
              (case proxy_set (proxy store key options) nv (c1\<lparr>trace := trace c1 @ [EvSetter]\<rparr>) of
                 (Inl e, c4) \<Rightarrow> (Inl e, c4)
               | (Inr u, c4) \<Rightarrow> (Inr (valueSlot c4), c4)))"
  using getWithSet_validate_count[of c store "proxyPath store key" key options setterFn]
    getWithSet_writable_eq[OF va rw, of "proxyPath store key" options c _ _ key]
  by (auto simp: proxy_sel)

theorem getWithSet_validates_at_most_once_witness:
  \<open>validate (flags (memStore False True)) \<and> \<not> readonly (flags (memStore False True)) \<and>
   proxy_getWithSet (proxy (memStore False True) ''k'' acceptAll) (Inr (JNum 2))
       (fresh [''root/k'' \<mapsto> JNum 1])
     = (Inr (JNum 2),
        \<lparr> valueSlot = JNum 2, isValueCached = True, backing = [''root/k'' \<mapsto> JNum 2],
          trace = [EvExists ''root/k'', EvRead ''root/k'', EvSetter,
                   EvValidate (JNum 1) (JNum 2) ''k'', EvWrite ''root/k'' (JNum 2)] \<rparr>) \<and>
   length (filter isValidate
     (newEvents (fresh [''root/k'' \<mapsto> JNum 1])
        (snd (proxy_getWithSet (proxy (memStore False True) ''k'' acceptAll) (Inr (JNum 2))
               (fresh [''root/k'' \<mapsto> JNum 1]))))) = 1\<close>
proof -
  have va: "validate (flags (memStore False True))" and rw: "\<not> readonly (flags (memStore False True))"
    by (simp_all add: memStore_def)
  have run: "proxy_getWithSet (proxy (memStore False True) ''k'' acceptAll) (Inr (JNum 2))
       (fresh [''root/k'' \<mapsto> JNum 1])
     = (Inr (JNum 2),
        \<lparr> valueSlot = JNum 2, isValueCached = True, backing = [''root/k'' \<mapsto> JNum 2],
          trace = [EvExists ''root/k'', EvRead ''root/k'', EvSetter,
                   EvValidate (JNum 1) (JNum 2) ''k'', EvWrite ''root/k'' (JNum 2)] \<rparr>)"
    by (simp add: eval_defs)
  have "1 \<le> length (filter isValidate
     (newEvents (fresh [''root/k'' \<mapsto> JNum 1])
        (snd (proxy_getWithSet (proxy (memStore False True) ''k'' acceptAll) (Inr (JNum 2))
               (fresh [''root/k'' \<mapsto> JNum 1])))))"
    by (simp add: run) (simp add: newEvents_def fresh_def)
  with getWithSet_validates_at_most_once[OF va rw, of "fresh [''root/k'' \<mapsto> JNum 1]" "''k''" acceptAll
         "Inr (JNum 2)"]
  show ?thesis using va rw run by simp
qed

text \<open>
  The claim as stated fails: no execution of one \<open>getWithSet\<close> call on such a store
  invokes \<open>validate\<close> twice.
\<close>

theorem getWithSet_never_validates_twice:
  "\<not> (\<exists>(store :: 's MeshStore) key options setterFn c r c'.
        validate (flags store) \<and> \<not> readonly (flags store) \<and>
        proxy_getWithSet (proxy store key options) setterFn c = (r, c') \<and>
        2 \<le> length (filter isValidate (newEvents c c')))"
proof
  assume "\<exists>(store :: 's MeshStore) key options setterFn c r c'.
        validate (flags store) \<and> \<not> readonly (flags store) \<and>
        proxy_getWithSet (proxy store key options) setterFn c = (r, c') \<and>
        2 \<le> length (filter isValidate (newEvents c c'))"
  then obtain store :: "'s MeshStore" and key options setterFn c r c' where
    run: "proxy_getWithSet (proxy store key options) setterFn c = (r, c')"
    and two: "2 \<le> length (filter isValidate (newEvents c c'))"
    by blast
  from getWithSet_validate_count[of c store "proxyPath store key" key options setterFn] run
  have "length (filter isValidate (newEvents c c')) \<le> 1" by (simp add: proxy_sel)
  with two show False by simp
qed

subsection \<open>When the strategy is asked\<close>

lemma okEvents_validate:
  assumes "\<forall>e\<in>set evs. okEvent path key e" "EvValidate old new i \<in> set evs"
  shows "\<not> absent old \<and> \<not> absent new \<and> i = key"
proof -
  from assms have "okEvent path key (EvValidate old new i)" by blast
  then show ?thesis by (simp add: truthy_not_absent)
qed

lemma set_first_write:
  assumes va: "validate (flags store)" and rw: "\<not> readonly (flags store)"
    and ex: "adapter_exists (storage store) path s = (Inr False, s1)"
    and wr: "adapter_write (storage store) path nv options s1 = (Inr (), s2)"
  shows "do_set store path key options nv (fresh s) =
           (Inr (), \<lparr> valueSlot = nv, isValueCached = True, backing = s2,
                      trace = [EvExists path, EvWrite path nv] \<rparr>)"
  using assms
  by (simp add: do_set_def doValidation_def ensureValueCached_def fresh_def Let_def)

text \<open>
  C6. Whenever \<open>set\<close> or \<open>getWithSet\<close> invokes the strategy's \<open>validate\<close>, neither the old
  nor the new value it passes is absent. In particular, on a store with
  \<open>validate = true\<close>, the first write through a proxy with nothing cached and no stored
  entry (\<open>exists\<close> resolves to false) makes two adapter calls, \<open>exists\<close> and \<open>write\<close>, never
  asks the strategy, and succeeds when the adapter's \<open>write\<close> does.
\<close>

theorem validate_needs_both_values:
  \<open>(\<forall>e\<in>set (newEvents c (snd (proxy_set (proxy store key options) nv c))).
       \<forall>old new i. e = EvValidate old new i \<longrightarrow> \<not> absent old \<and> \<not> absent new)
   \<and> (\<forall>e\<in>set (newEvents c (snd (proxy_getWithSet (proxy store key options) setterFn c))).
       \<forall>old new i. e = EvValidate old new i \<longrightarrow> \<not> absent old \<and> \<not> absent new)
   \<and> (validate (flags store) \<and> \<not> readonly (flags store) \<and>
       adapter_exists (storage store) (join (store_identifier store) key) s = (Inr False, s1) \<and>
       adapter_write (storage store) (join (store_identifier store) key) nv options s1 = (Inr (), s2)
       \<longrightarrow> proxy_set (proxy store key options) nv (fresh s) =
             (Inr (), \<lparr> valueSlot = nv, isValueCached = True, backing = s2,
                        trace = [EvExists (join (store_identifier store) key),
                                 EvWrite (join (store_identifier store) key) nv] \<rparr>))\<close>
proof -
  let ?path = "proxyPath store key"
  obtain r c' where run: "do_set store ?path key options nv c = (r, c')"
    by (cases "do_set store ?path key options nv c")
  from do_set_trace[OF run] obtain evs where
    t: "trace c' = trace c @ evs" and ok: "\<forall>e\<in>set evs. okEvent ?path key e" by blast
  have a: "\<forall>e\<in>set (newEvents c (snd (proxy_set (proxy store key options) nv c))).
       \<forall>old new i. e = EvValidate old new i \<longrightarrow> \<not> absent old \<and> \<not> absent new"
    using okEvents_validate[OF ok] by (auto simp: proxy_sel run newEvents_append[OF t])
  obtain r2 c2 where run2: "do_getWithSet store ?path key options setterFn c = (r2, c2)"
    by (cases "do_getWithSet store ?path key options setterFn c")
  from do_getWithSet_trace[OF run2] obtain evs2 where
    t2: "trace c2 = trace c @ evs2" and ok2: "\<forall>e\<in>set evs2. okEvent ?path key e" by blast
  have b: "\<forall>e\<in>set (newEvents c (snd (proxy_getWithSet (proxy store key options) setterFn c))).
       \<forall>old new i. e = EvValidate old new i \<longrightarrow> \<not> absent old \<and> \<not> absent new"
    using okEvents_validate[OF ok2] by (auto simp: proxy_sel run2 newEvents_append[OF t2])
  show ?thesis
    using a b set_first_write[of store ?path s s1 nv options s2 key]
    by (simp add: proxy_sel proxyPath_def)
qed

theorem validate_needs_both_values_witness:
  \<open>validate (flags (memStore False True)) \<and> \<not> readonly (flags (memStore False True)) \<and>
   adapter_exists (storage (memStore False True)) (join (store_identifier (memStore False True)) ''k'')
       Map.empty = (Inr False, Map.empty) \<and>
   adapter_write (storage (memStore False True)) (join (store_identifier (memStore False True)) ''k'')
       (JNum 7) rejectAll Map.empty = (Inr (), [''root/k'' \<mapsto> JNum 7]) \<and>
   proxy_set (proxy (memStore False True) ''k'' rejectAll) (JNum 7) (fresh Map.empty) =
     (Inr (), \<lparr> valueSlot = JNum 7, isValueCached = True, backing = [''root/k'' \<mapsto> JNum 7],
                trace = [EvExists ''root/k'', EvWrite ''root/k'' (JNum 7)] \<rparr>) \<and>
   list_all (\<lambda>e. \<not> isValidate e)
     (newEvents (fresh Map.empty)
        (snd (proxy_set (proxy (memStore False True) ''k'' rejectAll) (JNum 7) (fresh Map.empty))))\<close>
proof -
  have h: "validate (flags (memStore False True)) \<and> \<not> readonly (flags (memStore False True)) \<and>
   adapter_exists (storage (memStore False True)) (join (store_identifier (memStore False True)) ''k'')
       Map.empty = (Inr False, Map.empty) \<and>
   adapter_write (storage (memStore False True)) (join (store_identifier (memStore False True)) ''k'')
       (JNum 7) rejectAll Map.empty = (Inr (), [''root/k'' \<mapsto> JNum 7])"
    by (simp add: memStore_def InMemoryStoreStorageAdapter_def join_root_k)
  from validate_needs_both_values[of "fresh Map.empty" "memStore False True" "''k''" rejectAll "JNum 7"
      "Inr (JNum 7)" Map.empty Map.empty "[''root/k'' \<mapsto> JNum 7]"] h
  have s: "proxy_set (proxy (memStore False True) ''k'' rejectAll) (JNum 7) (fresh Map.empty) =
     (Inr (), \<lparr> valueSlot = JNum 7, isValueCached = True, backing = [''root/k'' \<mapsto> JNum 7],
                trace = [EvExists (join (store_identifier (memStore False True)) ''k''),
                         EvWrite (join (store_identifier (memStore False True)) ''k'') (JNum 7)] \<rparr>)"
    by blast
  show ?thesis using h s
    by (simp add: memStore_def join_root_k newEvents_def fresh_def)
qed

subsection \<open>Deleting\<close>

text \<open>
  C9. \<open>delete()\<close> is the adapter's \<open>delete\<close> on the proxy's path, whatever the flags of the
  store: its result is the adapter's, and of the state only the storage and the trace
  change. The cache slot is left alone, so a \<open>get()\<close> after the \<open>delete()\<close> of a proxy that
  had a value cached still returns that value, without asking the adapter.
\<close>

theorem delete_is_not_gated:
  \<open>proxy_delete (proxy store key options) c =
     (fst (adapter_delete (storage store) (join (store_identifier store) key) (backing c)),
      c\<lparr> backing := snd (adapter_delete (storage store) (join (store_identifier store) key) (backing c)),
         trace := trace c @ [EvDelete (join (store_identifier store) key)] \<rparr>)
   \<and> (isValueCached c \<longrightarrow>
        proxy_get (proxy store key options) (snd (proxy_delete (proxy store key options) c)) =
          (Inr (valueSlot c), snd (proxy_delete (proxy store key options) c)))\<close>
  by (simp add: proxy_sel proxyPath_def do_delete_def do_get_when_cached split: prod.splits)

theorem delete_is_not_gated_witness:
  \<open>readonly (flags (memStore True True)) \<and>
   proxy_delete (proxy (memStore True True) ''k'' acceptAll)
       \<lparr> valueSlot = JNum 1, isValueCached = True, backing = [''root/k'' \<mapsto> JNum 1],
         trace = [] \<rparr>
     = (Inr (), \<lparr> valueSlot = JNum 1, isValueCached = True, backing = Map.empty,
                  trace = [EvDelete ''root/k''] \<rparr>) \<and>
   proxy_get (proxy (memStore True True) ''k'' acceptAll)
       \<lparr> valueSlot = JNum 1, isValueCached = True, backing = Map.empty,
         trace = [EvDelete ''root/k''] \<rparr>
     = (Inr (JNum 1), \<lparr> valueSlot = JNum 1, isValueCached = True, backing = Map.empty,
                        trace = [EvDelete ''root/k''] \<rparr>)\<close>
proof -
  let ?c = "\<lparr> valueSlot = JNum 1, isValueCached = True, backing = [''root/k'' \<mapsto> JNum 1],
         trace = [] \<rparr>"
  let ?p = "proxy (memStore True True) ''k'' acceptAll"
  let ?c' = "\<lparr> valueSlot = JNum 1, isValueCached = True, backing = Map.empty,
         trace = [EvDelete ''root/k''] \<rparr> :: (string \<rightharpoonup> jsval) config"
  have ro: "readonly (flags (memStore True True))" by (simp add: memStore_def)
  have del: "proxy_delete ?p ?c = (Inr (), ?c')" by (simp add: eval_defs)
  have cached: "isValueCached ?c" by simp
  have "proxy_get ?p (snd (proxy_delete ?p ?c)) = (Inr (valueSlot ?c), snd (proxy_delete ?p ?c))"
    by (rule delete_is_not_gated[THEN conjunct2, rule_format, OF cached])
  then have "proxy_get ?p ?c' = (Inr (JNum 1), ?c')" by (simp add: del)
  with ro del show ?thesis by simp
qed

section \<open>Properties of joined paths\<close>

lemma splitSlash_not_Nil: "splitSlash s \<noteq> []"
  by (induction s) (auto split: list.splits)

lemma splitSlash_append:
  "splitSlash (a @ CHR ''/'' # b) = splitSlash a @ splitSlash b"
  by (induction a) (auto simp: splitSlash_not_Nil split: list.splits)

lemma splitSlash_plain: "CHR ''/'' \<notin> set w \<Longrightarrow> splitSlash w = [w]"
  by (induction w) auto

lemma splitSlash_slash_free: "w \<in> set (splitSlash s) \<Longrightarrow> CHR ''/'' \<notin> set w"
  by (induction s arbitrary: w) (auto split: if_splits list.splits)

lemma splitSlash_joinSlash:
  "ws \<noteq> [] \<Longrightarrow> \<forall>w\<in>set ws. CHR ''/'' \<notin> set w \<Longrightarrow> splitSlash (joinSlash ws) = ws"
proof (induction ws rule: joinSlash.induct)
  case 1
  then show ?case by simp
next
  case (2 w)
  then show ?case by (simp add: splitSlash_plain)
next
  case (3 w v ws)
  then show ?case by (simp add: splitSlash_append splitSlash_plain)
qed

lemma joinSlash_snoc:
  "ws \<noteq> [] \<Longrightarrow> joinSlash (ws @ [w]) = joinSlash ws @ CHR ''/'' # w"
  by (induction ws rule: joinSlash.induct) auto

lemma joinSlash_snoc_not_Nil: "w \<noteq> [] \<Longrightarrow> joinSlash (ws @ [w]) \<noteq> []"
  by (cases "ws = []") (simp_all add: joinSlash_snoc)

lemma normalStack_slash_free: "normalStack up st \<Longrightarrow> w \<in> set st \<Longrightarrow> CHR ''/'' \<notin> set w"
  by (induction st) auto

lemma normalStack_nonempty: "normalStack up st \<Longrightarrow> w \<in> set st \<Longrightarrow> w \<noteq> []"
  by (induction st) auto

lemma normStep_normal:
  assumes n: "normalStack up st" and sf: "CHR ''/'' \<notin> set seg"
  shows "normalStack up (normStep up st seg)"
proof -
  consider (skip) "seg = [] \<or> seg = ''.''" | (dots) "seg = ''..''"
    | (name) "seg \<noteq> []" "seg \<noteq> ''.''" "seg \<noteq> ''..''"
    by blast
  then show ?thesis
  proof cases
    case skip
    then show ?thesis using n by (simp add: normStep_def)
  next
    case dots
    show ?thesis
    proof (cases st)
      case Nil
      then show ?thesis using dots by (simp add: normStep_def)
    next
      case (Cons w st')
      show ?thesis
      proof (cases "w = ''..''")
        case True
        then show ?thesis using dots Cons n by (auto simp: normStep_def)
      next
        case False
        then show ?thesis using dots Cons n by (simp add: normStep_def)
      qed
    qed
  next
    case name
    then show ?thesis using n sf by (simp add: normStep_def)
  qed
qed

lemma foldl_normStep_normal:
  "normalStack up st \<Longrightarrow> \<forall>w\<in>set segs. CHR ''/'' \<notin> set w \<Longrightarrow>
   normalStack up (foldl (normStep up) st segs)"
  by (induction segs arbitrary: st) (simp_all add: normStep_normal)

lemma stackOf_normal: "normalStack (hd s \<noteq> CHR ''/'') (stackOf s)"
  unfolding stackOf_def
  by (rule foldl_normStep_normal) (auto dest: splitSlash_slash_free)

lemma normStep_push:
  "normalStack up (w # st) \<Longrightarrow> normStep up st w = w # st"
  by (cases st) (auto simp: normStep_def)

lemma foldl_normStep_rev:
  "normalStack up st \<Longrightarrow> foldl (normStep up) [] (rev st) = st"
  by (induction st) (simp_all add: normStep_push)

lemma normStep_plain: "plainName w \<Longrightarrow> normStep up st w = w # st"
  by (simp add: normStep_def plainName_def)

lemma normStep_empty: "normStep up st [] = st"
  by (simp add: normStep_def)

lemma plainName_facts:
  assumes "plainName w"
  shows "w \<noteq> []" "CHR ''/'' \<notin> set w" "hd w \<noteq> CHR ''/''" "last w \<noteq> CHR ''/''"
proof -
  from assms show ne: "w \<noteq> []" and sf: "CHR ''/'' \<notin> set w"
    by (simp_all add: plainName_def)
  from ne have "hd w \<in> set w" "last w \<in> set w" by simp_all
  with sf show "hd w \<noteq> CHR ''/''" "last w \<noteq> CHR ''/''" by metis+
qed

lemma joinSlash_Cons_Cons: "joinSlash ((c # w) # ws) = c # joinSlash (w # ws)"
  by (cases ws) simp_all

lemma joinSlash_splitSlash: "joinSlash (splitSlash w) = w"
proof (induction w)
  case Nil
  then show ?case by simp
next
  case (Cons c cs)
  obtain x xs where sp: "splitSlash cs = x # xs"
    using splitSlash_not_Nil[of cs] by (cases "splitSlash cs") auto
  show ?case
  proof (cases "c = CHR ''/''")
    case True
    then show ?thesis using Cons sp by simp
  next
    case False
    then have "splitSlash (c # cs) = (c # x) # xs" using sp by simp
    then have "joinSlash (splitSlash (c # cs)) = c # joinSlash (x # xs)"
      by (simp only: joinSlash_Cons_Cons)
    then show ?thesis using Cons sp by simp
  qed
qed

lemma splitSlash_hd_slash: "w \<noteq> [] \<Longrightarrow> hd w = CHR ''/'' \<Longrightarrow> hd (splitSlash w) = []"
  by (cases w) auto

lemma splitSlash_last_slash: "w \<noteq> [] \<Longrightarrow> last w = CHR ''/'' \<Longrightarrow> last (splitSlash w) = []"
proof (induction w)
  case Nil
  then show ?case by simp
next
  case (Cons c cs)
  obtain x xs where sp: "splitSlash cs = x # xs"
    using splitSlash_not_Nil[of cs] by (cases "splitSlash cs") auto
  show ?case
  proof (cases "cs = []")
    case True
    then show ?thesis using Cons.prems by simp
  next
    case False
    then have "last (splitSlash cs) = []" using Cons by simp
    moreover have "splitSlash cs \<noteq> [[]]"
      using joinSlash_splitSlash[of cs] False by auto
    ultimately show ?thesis using sp by (cases "c = CHR ''/''") (auto split: if_splits)
  qed
qed

lemma plainPath_facts:
  assumes "plainPath w"
  shows "w \<noteq> []" "hd w \<noteq> CHR ''/''" "last w \<noteq> CHR ''/''" "splitSlash w \<noteq> []"
    "\<forall>x\<in>set (splitSlash w). plainName x" "\<forall>x\<in>set (splitSlash w). CHR ''/'' \<notin> set x"
proof -
  from assms show all: "\<forall>x\<in>set (splitSlash w). plainName x"
    by (simp add: plainPath_def list_all_iff)
  show ne: "splitSlash w \<noteq> []" by (rule splitSlash_not_Nil)
  from all show "\<forall>x\<in>set (splitSlash w). CHR ''/'' \<notin> set x" by (simp add: plainName_def)
  have h: "plainName (hd (splitSlash w))" and l: "plainName (last (splitSlash w))"
    using all ne by simp_all
  show w: "w \<noteq> []"
  proof
    assume "w = []"
    with h show False by (simp add: plainName_def)
  qed
  show "hd w \<noteq> CHR ''/''"
    using splitSlash_hd_slash[OF w] h by (auto simp: plainName_def)
  show "last w \<noteq> CHR ''/''"
    using splitSlash_last_slash[OF w] l by (auto simp: plainName_def)
qed

lemma plainName_plainPath: "plainName w \<Longrightarrow> plainPath w"
  by (simp add: plainPath_def splitSlash_plain plainName_facts)

lemma plainPath_append:
  "plainPath a \<Longrightarrow> plainPath k \<Longrightarrow> plainPath (a @ CHR ''/'' # k)"
  by (simp add: plainPath_def splitSlash_append)

lemma foldl_normStep_plain:
  "\<forall>x\<in>set ws. plainName x \<Longrightarrow> foldl (normStep up) st ws = rev ws @ st"
  by (induction ws arbitrary: st) (simp_all add: normStep_plain)

lemma normalStack_push_plain:
  assumes "normalStack up st" "\<forall>x\<in>set ws. plainName x"
  shows "normalStack up (rev ws @ st)"
proof -
  have "\<forall>x\<in>set ws. CHR ''/'' \<notin> set x" using assms(2) by (simp add: plainName_def)
  from foldl_normStep_normal[OF assms(1) this] show ?thesis
    by (simp add: foldl_normStep_plain[OF assms(2)])
qed

lemma join_nonempty:
  "s \<noteq> [] \<Longrightarrow> a \<noteq> [] \<Longrightarrow> join s a = normalize (s @ CHR ''/'' # a)"
  by (simp add: join_def Let_def)

lemma join_empty_left: "a \<noteq> [] \<Longrightarrow> join [] a = normalize a"
  by (simp add: join_def)

lemma joinSlash_hd:
  assumes "normalStack up st" "st \<noteq> []"
  shows "joinSlash (rev st) \<noteq> [] \<and> hd (joinSlash (rev st)) \<noteq> CHR ''/''"
proof -
  from assms(2) obtain w ws where r: "rev st = w # ws" by (cases "rev st") auto
  then have "w \<in> set st" by (metis list.set_intros(1) set_rev)
  with assms(1) have w: "w \<noteq> []" "CHR ''/'' \<notin> set w"
    using normalStack_nonempty normalStack_slash_free by blast+
  then have "hd w \<noteq> CHR ''/''" by (cases w) auto
  with w show ?thesis unfolding r by (cases ws) auto
qed

lemma normalStack_no_dot: "normalStack up st \<Longrightarrow> ''.'' \<notin> set st \<and> [] \<notin> set st"
  by (induction st) auto

lemma joinSlash_rev_Nil:
  assumes "normalStack up st"
  shows "joinSlash (rev st) = [] \<longleftrightarrow> st = []"
  using joinSlash_hd[OF assms] by (cases "st = []") auto

lemma splitSlash_joinSlash_rev:
  assumes "normalStack up st" "st \<noteq> []"
  shows "splitSlash (joinSlash (rev st)) = rev st"
proof -
  have "\<forall>w\<in>set (rev st). CHR ''/'' \<notin> set w"
    using assms(1) normalStack_slash_free by (metis set_rev)
  then show ?thesis using assms(2) by (intro splitSlash_joinSlash) simp_all
qed

lemma normalize_stackOf:
  assumes "s \<noteq> []"
  shows "normalize s =
     (if stackOf s = [] then
        (if hd s = CHR ''/'' then ''/'' else if last s = CHR ''/'' then ''./'' else ''.'')
      else (if hd s = CHR ''/'' then ''/'' else []) @ joinSlash (rev (stackOf s)) @
           (if last s = CHR ''/'' then ''/'' else []))"
proof -
  have "normalizeString s (hd s \<noteq> CHR ''/'') = joinSlash (rev (stackOf s))"
    by (simp add: normalizeString_def stackOf_def)
  then show ?thesis
    using assms joinSlash_rev_Nil[OF stackOf_normal[of s]]
    by (simp add: normalize_def Let_def)
qed

text \<open>The normal form of a path that ends in a plain path.\<close>

lemma stackOf_plain_tail:
  assumes s: "s \<noteq> []" and w: "plainPath w"
  shows "stackOf (s @ CHR ''/'' # w) = rev (splitSlash w) @ stackOf s"
  using s plainPath_facts(5)[OF w]
  by (simp add: stackOf_def splitSlash_append foldl_normStep_plain)

lemma join_plainPath:
  assumes s: "s \<noteq> []" and w: "plainPath w"
  shows "join s w =
           (if hd s = CHR ''/'' then ''/'' else []) @ joinSlash (rev (stackOf s) @ splitSlash w)"
proof -
  let ?p = "s @ CHR ''/'' # w"
  have st: "stackOf ?p = rev (splitSlash w) @ stackOf s" by (rule stackOf_plain_tail[OF s w])
  have ne: "stackOf ?p \<noteq> []" using plainPath_facts(4)[OF w] by (simp add: st)
  have hd: "hd ?p = hd s" using s by simp
  have la: "last ?p \<noteq> CHR ''/''" using plainPath_facts(1,3)[OF w] by simp
  have "normalize ?p = (if hd s = CHR ''/'' then ''/'' else []) @ joinSlash (rev (stackOf ?p))"
    using ne la by (simp add: normalize_stackOf hd)
  then show ?thesis
    using s plainPath_facts(1)[OF w] by (simp add: join_nonempty st)
qed

lemma stackOf_join_plainPath:
  assumes s: "s \<noteq> []" and w: "plainPath w"
  shows "join s w \<noteq> []" "(hd (join s w) = CHR ''/'') = (hd s = CHR ''/'')"
    "stackOf (join s w) = rev (splitSlash w) @ stackOf s"
proof -
  let ?up = "hd s \<noteq> CHR ''/''"
  let ?st = "rev (splitSlash w) @ stackOf s"
  have n: "normalStack ?up ?st"
    by (rule normalStack_push_plain[OF stackOf_normal plainPath_facts(5)[OF w]])
  have ne: "?st \<noteq> []" using plainPath_facts(4)[OF w] by simp
  have j: "join s w = (if hd s = CHR ''/'' then ''/'' else []) @ joinSlash (rev ?st)"
    using join_plainPath[OF s w] by simp
  from joinSlash_hd[OF n ne] have h: "joinSlash (rev ?st) \<noteq> []" "hd (joinSlash (rev ?st)) \<noteq> CHR ''/''"
    by simp_all
  show "join s w \<noteq> []" using h by (simp add: j)
  show hd: "(hd (join s w) = CHR ''/'') = (hd s = CHR ''/'')" using h by (simp add: j)
  have sp: "splitSlash (joinSlash (rev ?st)) = rev ?st"
    by (rule splitSlash_joinSlash_rev[OF n ne])
  have "foldl (normStep ?up) [] (splitSlash (join s w)) = ?st"
  proof (cases "hd s = CHR ''/''")
    case True
    then have "splitSlash (join s w) = [] # rev ?st" using sp by (simp add: j)
    then show ?thesis using foldl_normStep_rev[OF n] by (simp add: normStep_empty)
  next
    case False
    then have "splitSlash (join s w) = rev ?st" using sp by (simp add: j)
    then show ?thesis using foldl_normStep_rev[OF n] by simp
  qed
  then show "stackOf (join s w) = rev (splitSlash w) @ stackOf s"
    by (simp add: stackOf_def hd)
qed

lemma stackOf_plainPath: "plainPath w \<Longrightarrow> stackOf w = rev (splitSlash w)"
  using plainPath_facts(2,5)[of w] by (simp add: stackOf_def foldl_normStep_plain)

lemma normalize_plainPath: "plainPath w \<Longrightarrow> normalize w = w"
  using plainPath_facts(1,2,3,4)[of w]
  by (simp add: normalize_stackOf stackOf_plainPath joinSlash_splitSlash)

lemma join_empty_plainPath: "plainPath w \<Longrightarrow> join [] w = w"
  by (simp add: join_empty_left normalize_plainPath plainPath_facts)

lemma join_two_plainPaths:
  assumes a: "plainPath a" and k: "plainPath k"
  shows "join a k = a @ CHR ''/'' # k"
proof -
  have "join a k = joinSlash (splitSlash a @ splitSlash k)"
    using join_plainPath[OF plainPath_facts(1)[OF a] k] plainPath_facts(2)[OF a]
    by (simp add: stackOf_plainPath[OF a])
  also have "\<dots> = joinSlash (splitSlash (a @ CHR ''/'' # k))" by (simp add: splitSlash_append)
  finally show ?thesis by (simp add: joinSlash_splitSlash)
qed

lemma join_assoc_plainPath:
  assumes a: "plainPath a" and k: "plainPath k"
  shows "join (join s a) k = join s (join a k)"
proof (cases "s = []")
  case True
  then show ?thesis
    using a k by (simp add: join_empty_plainPath join_two_plainPaths plainPath_append)
next
  case False
  have "join (join s a) k =
      (if hd s = CHR ''/'' then ''/'' else []) @ joinSlash (rev (stackOf s) @ splitSlash a @ splitSlash k)"
    using join_plainPath[OF stackOf_join_plainPath(1)[OF False a] k]
      stackOf_join_plainPath(2,3)[OF False a]
    by simp
  moreover have "join s (join a k) =
      (if hd s = CHR ''/'' then ''/'' else []) @ joinSlash (rev (stackOf s) @ splitSlash a @ splitSlash k)"
    using join_plainPath[OF False plainPath_append[OF a k]]
    by (simp add: join_two_plainPaths[OF a k] splitSlash_append)
  ultimately show ?thesis by simp
qed

lemma joinSlash_inj:
  assumes "joinSlash xs = joinSlash ys" "xs \<noteq> []" "ys \<noteq> []"
    "\<forall>w\<in>set xs. CHR ''/'' \<notin> set w" "\<forall>w\<in>set ys. CHR ''/'' \<notin> set w"
  shows "xs = ys"
  using assms splitSlash_joinSlash by metis

lemma join_join_plainPath_inj:
  assumes a: "plainPath a" and b: "plainPath b" and k: "plainPath k"
    and eq: "join (join s a) k = join (join s b) k"
  shows "a = b"
proof -
  have "splitSlash a = splitSlash b"
  proof (cases "s = []")
    case True
    then have "a @ CHR ''/'' # k = b @ CHR ''/'' # k"
      using eq a b k by (simp add: join_empty_plainPath join_two_plainPaths)
    then show ?thesis by simp
  next
    case False
    let ?xs = "rev (stackOf s) @ splitSlash a @ splitSlash k"
    let ?ys = "rev (stackOf s) @ splitSlash b @ splitSlash k"
    have ja: "join (join s a) k = (if hd s = CHR ''/'' then ''/'' else []) @ joinSlash ?xs"
      using join_plainPath[OF stackOf_join_plainPath(1)[OF False a] k]
        stackOf_join_plainPath(2,3)[OF False a] by simp
    have jb: "join (join s b) k = (if hd s = CHR ''/'' then ''/'' else []) @ joinSlash ?ys"
      using join_plainPath[OF stackOf_join_plainPath(1)[OF False b] k]
        stackOf_join_plainPath(2,3)[OF False b] by simp
    have e: "joinSlash ?xs = joinSlash ?ys" using eq by (simp add: ja jb)
    have sf: "\<forall>w\<in>set (rev (stackOf s)). CHR ''/'' \<notin> set w"
      using normalStack_slash_free[OF stackOf_normal[of s]] by (metis set_rev)
    have "?xs = ?ys"
      using sf plainPath_facts(4,6)[OF a] plainPath_facts(4,6)[OF b] plainPath_facts(6)[OF k]
      by (intro joinSlash_inj[OF e]) auto
    then show ?thesis by simp
  qed
  then have "joinSlash (splitSlash a) = joinSlash (splitSlash b)" by simp
  then show ?thesis by (simp add: joinSlash_splitSlash)
qed

lemma normalize_is_dot:
  assumes s: "s \<noteq> []"
  shows "(normalize s = ''.'' \<or> normalize s = ''./'') \<longleftrightarrow> (hd s \<noteq> CHR ''/'' \<and> stackOf s = [])"
proof (cases "stackOf s = []")
  case True
  then show ?thesis by (simp add: normalize_stackOf[OF s])
next
  case False
  let ?p = "joinSlash (rev (stackOf s))"
  note n = stackOf_normal[of s]
  have sp: "splitSlash ?p = rev (stackOf s)" by (rule splitSlash_joinSlash_rev[OF n False])
  have nd: "''.'' \<notin> set (rev (stackOf s))" "[] \<notin> set (rev (stackOf s))"
    using normalStack_no_dot[OF n] by simp_all
  have p1: "?p \<noteq> ''.''"
  proof
    assume "?p = ''.''"
    then have "splitSlash ?p = [''.'']" by simp
    with sp[symmetric] have "rev (stackOf s) = [''.'']" by (rule trans)
    then have "''.'' \<in> set (rev (stackOf s))" by (simp del: set_rev)
    with nd show False by blast
  qed
  have p2: "?p \<noteq> ''./''"
  proof
    assume "?p = ''./''"
    then have "splitSlash ?p = [''.'', []]" by simp
    with sp[symmetric] have "rev (stackOf s) = [''.'', []]" by (rule trans)
    then have "''.'' \<in> set (rev (stackOf s))" by (simp del: set_rev)
    with nd show False by blast
  qed
  have p0: "?p \<noteq> []" using joinSlash_hd[OF n False] by simp
  have "normalize s \<noteq> ''.'' \<and> normalize s \<noteq> ''./''"
  proof (cases "hd s = CHR ''/''")
    case True
    then show ?thesis using False by (simp add: normalize_stackOf[OF s])
  next
    case rel: False
    show ?thesis
    proof (cases "last s = CHR ''/''")
      case True
      then have "normalize s = ?p @ ''/''" using False rel by (simp add: normalize_stackOf[OF s])
      then show ?thesis using p1 p0 by (cases ?p) auto
    next
      case False
      then have "normalize s = ?p" using \<open>stackOf s \<noteq> []\<close> rel by (simp add: normalize_stackOf[OF s])
      then show ?thesis using p1 p2 by simp
    qed
  qed
  then show ?thesis using False by simp
qed

lemma join_plainPath_same:
  assumes s: "s \<noteq> []" and k: "plainPath k"
  shows "join s k = k \<longleftrightarrow> (hd s \<noteq> CHR ''/'' \<and> stackOf s = [])"
proof (cases "hd s = CHR ''/''")
  case True
  have "join s k \<noteq> k"
  proof
    assume "join s k = k"
    then have "hd k = hd (join s k)" by simp
    also have "\<dots> = CHR ''/''" using True by (simp add: join_plainPath[OF s k])
    finally show False using plainPath_facts(2)[OF k] by simp
  qed
  then show ?thesis using True by simp
next
  case False
  let ?xs = "rev (stackOf s) @ splitSlash k"
  have j: "join s k = joinSlash ?xs" using False by (simp add: join_plainPath[OF s k])
  have sf: "\<forall>w\<in>set ?xs. CHR ''/'' \<notin> set w"
    using normalStack_slash_free[OF stackOf_normal[of s]] plainPath_facts(6)[OF k]
    by (auto simp: set_rev)
  have "joinSlash ?xs = k \<longleftrightarrow> stackOf s = []"
  proof
    assume "joinSlash ?xs = k"
    then have "joinSlash ?xs = joinSlash (splitSlash k)" by (simp add: joinSlash_splitSlash)
    then have "?xs = splitSlash k"
      using sf plainPath_facts(4,6)[OF k] by (intro joinSlash_inj) auto
    then show "stackOf s = []" by simp
  next
    assume "stackOf s = []"
    then show "joinSlash ?xs = k" by (simp add: joinSlash_splitSlash)
  qed
  then show ?thesis using False by (simp add: j)
qed

lemma join_plainPath_differs:
  assumes k: "plainPath k"
  shows "join s k = k \<longleftrightarrow> s = [] \<or> normalize s = ''.'' \<or> normalize s = ''./''"
proof (cases "s = []")
  case True
  then show ?thesis using k by (simp add: join_empty_plainPath)
next
  case False
  then show ?thesis
    using join_plainPath_same[OF False k] normalize_is_dot[OF False] by blast
qed

lemma invoke_trace:
  "\<exists>evs. trace (invoke (proxy store key options) c call) = trace c @ evs \<and>
         (\<forall>e\<in>set evs. okEvent (proxyPath store key) key e)"
proof (cases call)
  case Get
  obtain r c' where run: "do_get store (proxyPath store key) options c = (r, c')"
    by (cases "do_get store (proxyPath store key) options c")
  from do_get_trace[OF run] obtain evs where
    t: "trace c' = trace c @ evs"
    and sub: "set evs \<subseteq> {EvExists (proxyPath store key), EvRead (proxyPath store key)}"
    by blast
  from sub have "\<forall>e\<in>set evs. okEvent (proxyPath store key) key e" by auto
  with t show ?thesis using Get by (auto simp: proxy_sel run)
next
  case (Set v)
  obtain r c' where run: "do_set store (proxyPath store key) key options v c = (r, c')"
    by (cases "do_set store (proxyPath store key) key options v c")
  from do_set_trace[OF run] show ?thesis using Set by (auto simp: proxy_sel run)
next
  case (GetWithSet f)
  obtain r c' where run: "do_getWithSet store (proxyPath store key) key options f c = (r, c')"
    by (cases "do_getWithSet store (proxyPath store key) key options f c")
  from do_getWithSet_trace[OF run] show ?thesis using GetWithSet by (auto simp: proxy_sel run)
next
  case Delete
  then show ?thesis by (simp add: proxy_sel do_delete_def split: prod.splits)
qed

text \<open>What a write through the filesystem adapter leaves in the file.\<close>

lemma fs_write:
  "adapter_write (FsStoreStorageAdapter imp flat ext) path v options files =
     (Inr (), files(getWrittenFileName ext path \<mapsto> flat (codify options v path)))"
  by (simp add: FsStoreStorageAdapter_def Let_def)

lemma write_not_in: "\<forall>e\<in>set evs. \<not> isWrite e \<Longrightarrow> EvWrite k w \<notin> set evs"
  by (metis isWrite.simps(1))

lemma do_set_fs_write:
  assumes fs: "storage store = FsStoreStorageAdapter imp flat ext"
    and run: "do_set store path key options nv c = (r, c')"
    and ev: "EvWrite k w \<in> set (newEvents c c')"
  shows "k = path \<and> w = nv \<and>
         backing c' (getWrittenFileName ext path) = Some (flat (codify options nv path))"
proof (cases "readonly (flags store)")
  case True
  with run ev show ?thesis by (simp add: do_set_def newEvents_def)
next
  case rw: False
  obtain r1 c1 where d: "(if validate (flags store) then doValidation store path key options nv c
               else (Inr (), c)) = (r1, c1)"
    by (cases "if validate (flags store) then doValidation store path key options nv c
               else (Inr (), c)")
  have "\<exists>evs. trace c1 = trace c @ evs \<and> (\<forall>e\<in>set evs. \<not> isWrite e)"
  proof (cases "validate (flags store)")
    case True
    with d have "doValidation store path key options nv c = (r1, c1)" by simp
    from doValidation_trace[OF this] show ?thesis by blast
  next
    case False
    with d show ?thesis by auto
  qed
  then obtain evs where t1: "trace c1 = trace c @ evs" and nw: "\<forall>e\<in>set evs. \<not> isWrite e"
    by blast
  show ?thesis
  proof (cases r1)
    case (Inl e)
    with run rw d have "c' = c1" by (simp add: do_set_def)
    with ev t1 write_not_in[OF nw, of k w] show ?thesis by (auto simp: newEvents_def)
  next
    case (Inr u)
    with run rw d fs have c': "c' = c1\<lparr>valueSlot := nv, isValueCached := True,
        backing := (backing c1)(getWrittenFileName ext path \<mapsto> flat (codify options nv path)),
        trace := trace c1 @ [EvWrite path nv]\<rparr>"
      by (auto simp: do_set_def Let_def fs_write)
    then have "newEvents c c' = evs @ [EvWrite path nv]" by (simp add: newEvents_def t1)
    with ev write_not_in[OF nw, of k w] have "k = path \<and> w = nv" by auto
    then show ?thesis by (simp add: c')
  qed
qed

lemma do_getWithSet_fs_write:
  assumes fs: "storage store = FsStoreStorageAdapter imp flat ext"
    and run: "do_getWithSet store path key options setterFn c = (r, c')"
    and ev: "EvWrite k w \<in> set (newEvents c c')"
  shows "k = path \<and>
         backing c' (getWrittenFileName ext path) = Some (flat (codify options w path))"
proof -
  obtain r1 c1 where e1: "ensureValueCached (storage store) path options c = (r1, c1)"
    by (cases "ensureValueCached (storage store) path options c")
  from ensure_trace[OF e1] obtain evs1 where
    t1: "trace c1 = trace c @ evs1" and s1: "set evs1 \<subseteq> {EvExists path, EvRead path}" by blast
  have nw1: "\<forall>e\<in>set evs1. \<not> isWrite e" using s1 by auto
  define c2 where "c2 = c1\<lparr>trace := trace c1 @ [EvSetter]\<rparr>"
  have t2: "trace c2 = trace c @ evs1 @ [EvSetter]" by (simp add: c2_def t1)
  have nw2: "\<forall>e\<in>set (evs1 @ [EvSetter]). \<not> isWrite e" using nw1 by simp
  consider (early) "c' = c1 \<or> c' = c2"
    | (validated) nv r3 where "doValidation store path key options nv c2 = (r3, c')"
    | (stored) nv r3 where "setterFn = Inr nv" "do_set store path key options nv c2 = (r3, c')"
  proof (cases r1)
    case (Inl e)
    with run e1 have "c' = c1" by (simp add: do_getWithSet_def)
    then show ?thesis using early by simp
  next
    case (Inr u)
    show ?thesis
    proof (cases "validate (flags store) \<or> \<not> truthy (valueSlot c1)")
      case False
      with run e1 Inr have "c' = c1" by (auto simp: do_getWithSet_def)
      then show ?thesis using early by simp
    next
      case br: True
      show ?thesis
      proof (cases setterFn)
        case (Inl e)
        with run e1 Inr br have "c' = c2" by (auto simp: do_getWithSet_def Let_def c2_def)
        then show ?thesis using early by simp
      next
        case nv: (Inr newValue)
        show ?thesis
        proof (cases "readonly (flags store)")
          case ro: True
          show ?thesis
          proof (cases "validate (flags store)")
            case False
            with run e1 Inr br nv ro have "c' = c2"
              by (auto simp: do_getWithSet_def Let_def c2_def)
            then show ?thesis using early by simp
          next
            case va: True
            obtain r3 c3 where d: "doValidation store path key options newValue c2 = (r3, c3)"
              by (cases "doValidation store path key options newValue c2")
            with run e1 Inr br nv ro va have "c' = c3"
              by (cases r3) (auto simp: do_getWithSet_def Let_def c2_def[symmetric])
            with d show ?thesis using validated by simp
          qed
        next
          case rw: False
          obtain r3 c3 where d: "do_set store path key options newValue c2 = (r3, c3)"
            by (cases "do_set store path key options newValue c2")
          with run e1 Inr br nv rw have "c' = c3"
            by (cases r3) (auto simp: do_getWithSet_def Let_def c2_def[symmetric])
          with d nv show ?thesis using stored by simp
        qed
      qed
    qed
  qed
  then show ?thesis
  proof cases
    case early
    with ev t1 t2 write_not_in[OF nw2, of k w] show ?thesis by (auto simp: newEvents_def)
  next
    case validated
    from doValidation_trace[OF validated] obtain evs3 where
      t3: "trace c' = trace c2 @ evs3" and ok3: "\<forall>e\<in>set evs3. okEvent path key e \<and> \<not> isWrite e"
      by blast
    from ok3 have "\<forall>e\<in>set evs3. \<not> isWrite e" by simp
    from write_not_in[OF this, of k w] write_not_in[OF nw2, of k w] ev t2 t3
    show ?thesis by (auto simp: newEvents_def)
  next
    case stored
    from do_set_trace[OF stored(2)] obtain evs3 where t3: "trace c' = trace c2 @ evs3" by blast
    have "newEvents c c' = evs1 @ [EvSetter] @ evs3" by (simp add: newEvents_def t3 t2)
    moreover have "newEvents c2 c' = evs3" using t3 by (rule newEvents_append)
    ultimately have "EvWrite k w \<in> set (newEvents c2 c')"
      using ev write_not_in[OF nw2, of k w] by auto
    from do_set_fs_write[OF fs stored(2) this] show ?thesis by simp
  qed
qed

lemma invoke_fs_write:
  assumes fs: "storage store = FsStoreStorageAdapter imp flat ext"
    and ev: "EvWrite k w \<in> set (newEvents c (invoke (proxy store key options) c call))"
  shows "k = proxyPath store key \<and>
         backing (invoke (proxy store key options) c call) (getWrittenFileName ext (proxyPath store key))
           = Some (flat (codify options w (proxyPath store key)))"
proof (cases call)
  case Get
  obtain r c' where run: "do_get store (proxyPath store key) options c = (r, c')"
    by (cases "do_get store (proxyPath store key) options c")
  from do_get_trace[OF run] obtain evs where
    "trace c' = trace c @ evs" "set evs \<subseteq> {EvExists (proxyPath store key), EvRead (proxyPath store key)}"
    by blast
  with ev Get run show ?thesis by (auto simp: proxy_sel newEvents_def)
next
  case (Set v)
  obtain r c' where run: "do_set store (proxyPath store key) key options v c = (r, c')"
    by (cases "do_set store (proxyPath store key) key options v c")
  from ev Set run have "EvWrite k w \<in> set (newEvents c c')" by (simp add: proxy_sel)
  from do_set_fs_write[OF fs run this] show ?thesis using Set run by (simp add: proxy_sel)
next
  case (GetWithSet f)
  obtain r c' where run: "do_getWithSet store (proxyPath store key) key options f c = (r, c')"
    by (cases "do_getWithSet store (proxyPath store key) key options f c")
  from ev GetWithSet run have "EvWrite k w \<in> set (newEvents c c')" by (simp add: proxy_sel)
  from do_getWithSet_fs_write[OF fs run this] show ?thesis using GetWithSet run by (simp add: proxy_sel)
next
  case Delete
  with ev show ?thesis by (simp add: proxy_sel do_delete_def newEvents_def split: prod.splits)
qed

section \<open>Namespaces and identifiers\<close>

lemmas join_eval = join_def normalize_def normalizeString_def normStep_def Let_def

text \<open>
  C8, as amended. Call an identifier a plain path when it is one or more plain names
  (non-empty, without \<open>/\<close>, neither \<open>.\<close> nor \<open>..\<close>) separated by single \<open>/\<close>. For
  every store \<open>s\<close> and plain paths \<open>a\<close> and \<open>k\<close>, \<open>s.child(a).proxy(k)\<close> resolves the same
  storage key as \<open>s.proxy(join(a, k))\<close>; for plain paths \<open>a \<noteq> b\<close> the proxies
  \<open>s.child(a).proxy(k)\<close> and \<open>s.child(b).proxy(k)\<close> resolve different storage keys. For
  every identifier \<open>a\<close> whatsoever, \<open>child(a, overrides)\<close> is a new node (the parent is not
  touched) whose identifier is the parent's joined with \<open>a\<close>, whose adapter is the
  parent's, and whose flags are the parent's with every override that is given taking its
  place, an override given as \<open>undefined\<close> leaving the flag unset.
\<close>

theorem child_namespaces:
  "(plainPath a \<and> plainPath k \<longrightarrow> proxyPath (child s a ov) k = proxyPath s (join a k))
   \<and> (plainPath a \<and> plainPath b \<and> plainPath k \<and> a \<noteq> b \<longrightarrow>
        proxyPath (child s a ov) k \<noteq> proxyPath (child s b ov') k)
   \<and> store_identifier (child s a ov) = join (store_identifier s) a
   \<and> storage (child s a ov) = storage s
   \<and> flags (child s a ov) =
       (case ov of
          None \<Rightarrow> flags s
        | Some p \<Rightarrow>
            \<lparr> readonly = (case readonly_opt p of
                            Omitted \<Rightarrow> readonly (flags s) | GivenUndefined \<Rightarrow> False | Given x \<Rightarrow> x),
              validate = (case validate_opt p of
                            Omitted \<Rightarrow> validate (flags s) | GivenUndefined \<Rightarrow> False | Given x \<Rightarrow> x) \<rparr>)"
proof -
  have f: "overrideFlag x o' = (case o' of Omitted \<Rightarrow> x | GivenUndefined \<Rightarrow> False | Given y \<Rightarrow> y)"
    for x o' by (cases o') simp_all
  show ?thesis
    using join_assoc_plainPath[of a k "store_identifier s"]
      join_join_plainPath_inj[of a b k "store_identifier s"]
    by (auto simp: proxyPath_def child_def spreadFlags_def f split: option.splits)
qed

theorem child_namespaces_witness:
  "plainPath ''sources/a'' \<and> plainPath ''sources/b'' \<and> plainPath ''k'' \<and>
   ''sources/a'' \<noteq> ''sources/b'' \<and>
   proxyPath (child (memStore True True) ''sources/a''
                (Some \<lparr> readonly_opt = GivenUndefined, validate_opt = Omitted \<rparr>)) ''k''
     = ''root/sources/a/k'' \<and>
   proxyPath (memStore True True) (join ''sources/a'' ''k'') = ''root/sources/a/k'' \<and>
   proxyPath (child (memStore True True) ''sources/b'' None) ''k'' = ''root/sources/b/k'' \<and>
   flags (child (memStore True True) ''sources/a''
            (Some \<lparr> readonly_opt = GivenUndefined, validate_opt = Omitted \<rparr>))
     = \<lparr> readonly = False, validate = True \<rparr> \<and>
   flags (child (memStore True True) ''sources/a''
            (Some \<lparr> readonly_opt = Omitted, validate_opt = Given False \<rparr>))
     = \<lparr> readonly = True, validate = False \<rparr>"
proof -
  have p: "plainPath ''sources/a''" "plainPath ''sources/b''" "plainPath ''k''"
    by (simp_all add: plainPath_def plainName_def)
  have e: "proxyPath (memStore True True) (join ''sources/a'' ''k'') = ''root/sources/a/k''"
    "proxyPath (child (memStore True True) ''sources/b'' None) ''k'' = ''root/sources/b/k''"
    by (simp_all add: proxyPath_def child_def memStore_def join_eval)
  from child_namespaces[of "''sources/a''" "''k''" "memStore True True"
         "Some \<lparr> readonly_opt = GivenUndefined, validate_opt = Omitted \<rparr>" "''sources/b''" None]
       child_namespaces[of "''sources/a''" "''k''" "memStore True True"
         "Some \<lparr> readonly_opt = Omitted, validate_opt = Given False \<rparr>" "''sources/b''" None]
  show ?thesis using p e by (simp add: memStore_def)
qed

text \<open>
  The claim as stated, for all identifiers, fails: \<open>join\<close> normalises. The children
  \<open>x\<close> and \<open>x/\<close> of one store address the same key; with an empty child identifier
  and the key \<open>/../y\<close> the nested and the direct form address different keys; and under
  the key \<open>../z\<close> the children \<open>a\<close> and \<open>b\<close> address the same key.
\<close>

theorem child_paths_collide:
  "''x'' \<noteq> ''x/'' \<and>
   proxyPath (child (memStore False True) ''x'' None) ''k'' = ''root/x/k'' \<and>
   proxyPath (child (memStore False True) ''x/'' None) ''k'' = ''root/x/k'' \<and>
   proxyPath (child (memStore False True) [] None) ''/../y'' = ''y'' \<and>
   proxyPath (memStore False True) (join [] ''/../y'') = ''root/y'' \<and>
   ''a'' \<noteq> ''b'' \<and>
   proxyPath (child (memStore False True) ''a'' None) ''../z'' = ''root/z'' \<and>
   proxyPath (child (memStore False True) ''b'' None) ''../z'' = ''root/z''"
  by (simp add: proxyPath_def child_def memStore_def join_eval)

text \<open>
  C10, as amended. Whatever method of a proxy is called, every adapter operation it
  invokes receives the full path \<open>join(identifier, id)\<close>, and every call of the strategy's
  \<open>validate\<close> receives the bare key \<open>id\<close>. Through the filesystem adapter \<open>codify\<close>
  receives the full path too: whenever a method of the proxy writes a value, with or
  without validation, the file of that path then holds \<open>codify(value, path)\<close>. For a key
  that is a plain path (one or more plain names separated by single \<open>/\<close>) the two views
  are the same exactly when the store's identifier is empty or normalises to the current
  directory (\<open>.\<close> or \<open>./\<close>); in every other case they differ.
\<close>

theorem proxy_identifier_views:
  \<open>trace (invoke (proxy store key options) c call)
       = trace c @ newEvents c (invoke (proxy store key options) c call)
   \<and> (\<forall>e\<in>set (newEvents c (invoke (proxy store key options) c call)).
         okEvent (join (store_identifier store) key) key e)
   \<and> (storage fstore = FsStoreStorageAdapter imp flat ext \<longrightarrow>
        (\<forall>k w. EvWrite k w \<in> set (newEvents d (invoke (proxy fstore key options) d call)) \<longrightarrow>
           k = join (store_identifier fstore) key \<and>
           backing (invoke (proxy fstore key options) d call)
               (getWrittenFileName ext (join (store_identifier fstore) key))
             = Some (flat (codify options w (join (store_identifier fstore) key)))))
   \<and> (plainPath key \<longrightarrow>
        (join (store_identifier store) key = key \<longleftrightarrow>
           store_identifier store = [] \<or> normalize (store_identifier store) = ''.'' \<or>
           normalize (store_identifier store) = ''./''))\<close>
proof -
  from invoke_trace[of store key options c call] obtain evs where
    t: "trace (invoke (proxy store key options) c call) = trace c @ evs"
    and ok: "\<forall>e\<in>set evs. okEvent (proxyPath store key) key e" by blast
  have ne: "newEvents c (invoke (proxy store key options) c call) = evs"
    using t by (rule newEvents_append)
  have a: "\<forall>e\<in>set (newEvents c (invoke (proxy store key options) c call)).
         okEvent (join (store_identifier store) key) key e"
    using ok by (simp add: ne proxyPath_def)
  have b: "storage fstore = FsStoreStorageAdapter imp flat ext \<longrightarrow>
        (\<forall>k w. EvWrite k w \<in> set (newEvents d (invoke (proxy fstore key options) d call)) \<longrightarrow>
           k = join (store_identifier fstore) key \<and>
           backing (invoke (proxy fstore key options) d call)
               (getWrittenFileName ext (join (store_identifier fstore) key))
             = Some (flat (codify options w (join (store_identifier fstore) key))))"
  proof (intro impI allI)
    fix k w
    assume fs: "storage fstore = FsStoreStorageAdapter imp flat ext"
      and ev: "EvWrite k w \<in> set (newEvents d (invoke (proxy fstore key options) d call))"
    from invoke_fs_write[OF fs ev]
    show "k = join (store_identifier fstore) key \<and>
           backing (invoke (proxy fstore key options) d call)
               (getWrittenFileName ext (join (store_identifier fstore) key))
             = Some (flat (codify options w (join (store_identifier fstore) key)))"
      by (simp add: proxyPath_def)
  qed
  have c: "plainPath key \<longrightarrow>
        (join (store_identifier store) key = key \<longleftrightarrow>
           store_identifier store = [] \<or> normalize (store_identifier store) = ''.'' \<or>
           normalize (store_identifier store) = ''./'')"
    using join_plainPath_differs[of key "store_identifier store"] by simp
  from t a b c show ?thesis by (simp only: ne simp_thms)
qed

theorem proxy_identifier_views_witness:
  \<open>storage fsValidatingStore
     = FsStoreStorageAdapter (\<lambda>files filePath. Inr (JObj [(''default'', JNum 1)])) id Mjs \<and>
   plainPath ''k'' \<and>
   invoke (proxy fsValidatingStore ''k'' echoIdentifier) (fresh [''root/k.mjs'' \<mapsto> ''old''])
       (Set (JNum 2))
     = \<lparr> valueSlot = JNum 2, isValueCached = True, backing = [''root/k.mjs'' \<mapsto> ''root/k''],
         trace = [EvExists ''root/k'', EvRead ''root/k'', EvValidate (JNum 1) (JNum 2) ''k'',
                  EvWrite ''root/k'' (JNum 2)] \<rparr> \<and>
   EvWrite ''root/k'' (JNum 2)
     \<in> set (newEvents (fresh [''root/k.mjs'' \<mapsto> ''old''])
              (invoke (proxy fsValidatingStore ''k'' echoIdentifier)
                 (fresh [''root/k.mjs'' \<mapsto> ''old'']) (Set (JNum 2)))) \<and>
   backing (invoke (proxy fsValidatingStore ''k'' echoIdentifier)
              (fresh [''root/k.mjs'' \<mapsto> ''old'']) (Set (JNum 2)))
       (getWrittenFileName Mjs ''root/k'')
     = Some (codify echoIdentifier (JNum 2) ''root/k'') \<and>
   codify echoIdentifier (JNum 2) ''root/k'' = ''root/k'' \<and>
   join (store_identifier fsValidatingStore) ''k'' \<noteq> ''k'' \<and>
   normalize (store_identifier fsValidatingStore) = ''root''\<close>
proof -
  let ?d = "fresh [''root/k.mjs'' \<mapsto> ''old''] :: (string \<rightharpoonup> string) config"
  let ?p = "proxy fsValidatingStore ''k'' echoIdentifier"
  have h: "storage fsValidatingStore
     = FsStoreStorageAdapter (\<lambda>files filePath. Inr (JObj [(''default'', JNum 1)])) id Mjs"
    "plainPath ''k''"
    by (simp_all add: fsValidatingStore_def plainPath_def plainName_def)
  have n: "normalize (store_identifier fsValidatingStore) = ''root''"
    by (simp add: fsValidatingStore_def join_eval)
  have j: "join (store_identifier fsValidatingStore) ''k'' = ''root/k''"
    by (simp add: fsValidatingStore_def join_root_k)
  have run: "invoke ?p ?d (Set (JNum 2))
     = \<lparr> valueSlot = JNum 2, isValueCached = True, backing = [''root/k.mjs'' \<mapsto> ''root/k''],
         trace = [EvExists ''root/k'', EvRead ''root/k'', EvValidate (JNum 1) (JNum 2) ''k'',
                  EvWrite ''root/k'' (JNum 2)] \<rparr>"
    by (simp add: fsValidatingStore_def echoIdentifier_def proxy_def proxyPath_def join_root_k
        do_set_def doValidation_def ensureValueCached_def FsStoreStorageAdapter_def
        getWrittenFileName_def fresh_def Let_def)
  have ev: "EvWrite ''root/k'' (JNum 2) \<in> set (newEvents ?d (invoke ?p ?d (Set (JNum 2))))"
    unfolding run by (simp add: newEvents_def fresh_def)
  note th = proxy_identifier_views[of fsValidatingStore "''k''" echoIdentifier ?d "Set (JNum 2)"
      fsValidatingStore "(\<lambda>files filePath. Inr (JObj [(''default'', JNum 1)]))" id Mjs ?d]
  have "backing (invoke ?p ?d (Set (JNum 2)))
          (getWrittenFileName Mjs (join (store_identifier fsValidatingStore) ''k''))
        = Some (id (codify echoIdentifier (JNum 2) (join (store_identifier fsValidatingStore) ''k'')))"
    using th[THEN conjunct2, THEN conjunct2, THEN conjunct1, THEN mp, OF h(1), rule_format,
             of "''root/k''" "JNum 2"] ev
    by simp
  moreover have "join (store_identifier fsValidatingStore) ''k'' = ''k'' \<longleftrightarrow>
           store_identifier fsValidatingStore = [] \<or> normalize (store_identifier fsValidatingStore) = ''.'' \<or>
           normalize (store_identifier fsValidatingStore) = ''./''"
    by (rule mp[OF th[THEN conjunct2, THEN conjunct2, THEN conjunct2] h(2)])
  ultimately show ?thesis using h n run ev
    by (simp add: j echoIdentifier_def)
qed

text \<open>
  The claim as stated fails for a non-empty identifier that \<open>join\<close> normalises away: on a
  store whose identifier is \<open>.\<close>, the adapter and the strategy both see \<open>k\<close>. A key that
  climbs can also undo the identifier: on a store whose identifier is \<open>../x\<close>, the proxy
  for \<open>../k\<close> addresses \<open>../k\<close>.
\<close>

theorem identifier_views_coincide:
  \<open>store_identifier ((memStore False True)\<lparr>store_identifier := ''.''\<rparr>) \<noteq> [] \<and>
   proxyPath ((memStore False True)\<lparr>store_identifier := ''.''\<rparr>) ''k'' = ''k'' \<and>
   proxy_set (proxy ((memStore False True)\<lparr>store_identifier := ''.''\<rparr>) ''k'' acceptAll) (JNum 2)
       (fresh [''k'' \<mapsto> JNum 1])
     = (Inr (), \<lparr> valueSlot = JNum 2, isValueCached = True, backing = [''k'' \<mapsto> JNum 2],
                  trace = [EvExists ''k'', EvRead ''k'', EvValidate (JNum 1) (JNum 2) ''k'',
                           EvWrite ''k'' (JNum 2)] \<rparr>) \<and>
   store_identifier ((memStore False True)\<lparr>store_identifier := ''../x''\<rparr>) \<noteq> [] \<and>
   normalize (store_identifier ((memStore False True)\<lparr>store_identifier := ''../x''\<rparr>)) = ''../x'' \<and>
   proxyPath ((memStore False True)\<lparr>store_identifier := ''../x''\<rparr>) ''../k'' = ''../k''\<close>
proof -
  have j: "join ''.'' ''k'' = ''k''" "join ''../x'' ''../k'' = ''../k''" "normalize ''../x'' = ''../x''"
    by (simp_all add: join_eval)
  show ?thesis
    by (simp add: memStore_def acceptAll_def proxy_def proxyPath_def j do_set_def
        ensureValueCached_def doValidation_def InMemoryStoreStorageAdapter_def fresh_def Let_def)
qed

end
